theory Spec2Isabelle
  imports Main "HOL-Library.Word"
begin

unbundle bit_operations_syntax

section \<open>Data model of \<open>es::storage\<close>\<close>

text \<open>
  The embedding follows \<open>src/es/storage.hpp\<close>.  Exceptions, failed assertions and
  undefined behaviour (dereferencing \<open>end()\<close>, unchecked out-of-range indexing) are
  values of the type \<open>error\<close>; every operation returns \<open>error + result\<close>.
\<close>

datatype error =
    Logic_Error string     \<comment> \<open>\<open>std::logic_error\<close> with its message\<close>
  | Out_Of_Range           \<comment> \<open>\<open>std::out_of_range\<close> of \<open>std::bitset::set\<close>\<close>
  | Assertion_Failed       \<comment> \<open>a failed \<open>assert\<close>\<close>
  | Undefined_Behaviour    \<comment> \<open>unchecked access outside an object, dangling iterator\<close>

type_synonym component_id = nat   \<comment> \<open>\<open>uint8_t\<close>; the width only matters where an id is produced\<close>
type_synonym entity = "32 word"   \<comment> \<open>key type of \<open>stor_impl\<close>: \<open>uint32_t\<close>\<close>
type_synonym iterator = "entity option"
  \<comment> \<open>an iterator into \<open>entities_\<close>: \<open>None\<close> is \<open>end()\<close>, \<open>Some k\<close> points at the node with key \<open>k\<close>\<close>
type_synonym val = "8 word list"
  \<comment> \<open>a value: the object representation of a flat type, the contents of a non-flat one\<close>

text \<open>
  One \<open>char\<close> of \<open>elem::data\<close>.  A flat value occupies raw bytes.  A \<open>holder<t>\<close> that was
  constructed in the buffer owns a value outside the byte representation; its chars are
  \<open>Held h\<close>, where \<open>h\<close> names the live held value in the \<open>heap\<close> of the storage.
\<close>

datatype cell = Raw "8 word" | Held nat

record elem =
  components :: "64 word"   \<comment> \<open>\<open>std::bitset<64>\<close>: which components are held in \<open>data\<close>\<close>
  dirty :: "64 word"        \<comment> \<open>\<open>std::bitset<64>\<close>: which components have changed\<close>
  data :: "cell list"       \<comment> \<open>\<open>std::vector<char>\<close>\<close>

text \<open>
  Modelled from the spec: the component descriptor (\<open>component.hpp\<close> is not part of the
  sources).  The spec gives it a name, a storage size and a flatness flag; the code
  constructs it as \<open>(name, size, prototype)\<close> with a null prototype exactly for flat types.
\<close>

record component =
  c_name :: string
  c_size :: nat
  c_flat :: bool

text \<open>
  The template parameter \<open>type\<close> of the typed operations, as far as the code looks at it:
  \<open>is_flat<type>::value\<close>, and \<open>sizeof(type)\<close> for a flat type, \<open>sizeof(holder<type>)\<close>
  otherwise.
\<close>

record ctype =
  is_flat :: bool
  size_of :: nat

record storage =
  next_id :: "32 word"                    \<comment> \<open>\<open>next_id_\<close>\<close>
  registered :: "component list"          \<comment> \<open>\<open>components_\<close>\<close>
  entities :: "(entity \<times> elem) list"     \<comment> \<open>\<open>entities_\<close>, in iteration order, keys distinct\<close>
  component_offsets :: "nat list"         \<comment> \<open>\<open>component_offsets_\<close>\<close>
  flat_mask :: "64 word"                  \<comment> \<open>\<open>flat_mask_\<close>\<close>
  heap :: "val option list"               \<comment> \<open>held values of the constructed holders; \<open>None\<close> once destroyed\<close>

definition cache_size :: nat where
  "cache_size = 12"

definition cache_mask :: "64 word" where
  "cache_mask = push_bit cache_size 1 - 1"

text \<open>\<open>std::bitset<64>\<close>: \<open>operator[]\<close> is unchecked, \<open>set\<close> throws.\<close>

definition bitset_test :: "64 word \<Rightarrow> nat \<Rightarrow> error + bool" where
  "bitset_test m pos = (if pos < 64 then Inr (bit m pos) else Inl Undefined_Behaviour)"

definition bitset_set :: "64 word \<Rightarrow> nat \<Rightarrow> error + 64 word" where
  "bitset_set m pos = (if pos < 64 then Inr (set_bit pos m) else Inl Out_Of_Range)"

subsection \<open>Buffer primitives\<close>

definition insert_at :: "nat \<Rightarrow> 'a list \<Rightarrow> 'a list \<Rightarrow> 'a list" where
  \<comment> \<open>\<open>v.insert(v.begin() + off, ...)\<close>, for \<open>off \<le> v.size()\<close>\<close>
  "insert_at off cs xs = take off xs @ cs @ drop off xs"

definition place :: "nat \<Rightarrow> 'a list \<Rightarrow> 'a list \<Rightarrow> 'a list" where
  \<comment> \<open>placement of an object representation at \<open>off\<close>, inside the buffer\<close>
  "place off cs xs = take off xs @ cs @ drop (off + length cs) xs"

definition erase_at :: "nat \<Rightarrow> nat \<Rightarrow> 'a list \<Rightarrow> 'a list" where
  \<comment> \<open>\<open>v.erase(v.begin() + off, v.begin() + off + n)\<close>\<close>
  "erase_at off n xs = take off xs @ drop (off + n) xs"

definition slot :: "nat \<Rightarrow> nat \<Rightarrow> 'a list \<Rightarrow> 'a list" where
  "slot off n xs = take n (drop off xs)"

fun unraw :: "cell list \<Rightarrow> val option" where
  "unraw [] = Some []"
| "unraw (Raw b # cs) = map_option ((#) b) (unraw cs)"
| "unraw (Held h # cs) = None"

definition read_flat :: "nat \<Rightarrow> nat \<Rightarrow> cell list \<Rightarrow> error + val" where
  \<comment> \<open>\<open>*reinterpret_cast<const type*>(&*data.begin() + off)\<close>\<close>
  "read_flat off n xs =
     (if off + n \<le> length xs then
        (case unraw (slot off n xs) of
           Some v \<Rightarrow> Inr v
         | None \<Rightarrow> Inl Undefined_Behaviour)
      else Inl Undefined_Behaviour)"

definition held_handle :: "nat \<Rightarrow> nat \<Rightarrow> cell list \<Rightarrow> error + nat" where
  \<comment> \<open>\<open>reinterpret_cast<holder<type>*>(&*data.begin() + off)\<close>: the holder whose
      representation fills the \<open>n\<close> chars at \<open>off\<close>\<close>
  "held_handle off n xs =
     (case slot off n xs of
        Held h # rest \<Rightarrow>
          if slot off n xs = replicate n (Held h) then Inr h else Inl Undefined_Behaviour
      | _ \<Rightarrow> Inl Undefined_Behaviour)"

definition read_held :: "val option list \<Rightarrow> nat \<Rightarrow> nat \<Rightarrow> cell list \<Rightarrow> error + val" where
  \<comment> \<open>\<open>ptr->held()\<close>\<close>
  "read_held hp off n xs =
     (case held_handle off n xs of
        Inl err \<Rightarrow> Inl err
      | Inr h \<Rightarrow>
          if h < length hp then
            (case hp ! h of Some v \<Rightarrow> Inr v | None \<Rightarrow> Inl Undefined_Behaviour)
          else Inl Undefined_Behaviour)"

definition construct :: "ctype \<Rightarrow> val \<Rightarrow> val option list \<Rightarrow> cell list \<times> val option list" where
  \<comment> \<open>\<open>new (p) type(std::move(val))\<close> for a flat type (\<open>val\<close> has \<open>sizeof(type)\<close> bytes),
      \<open>new (p) holder<type>(std::move(val))\<close> otherwise: a new live held value\<close>
  "construct ty v hp =
     (if is_flat ty then (map Raw v, hp)
      else (replicate (size_of ty) (Held (length hp)), hp @ [Some v]))"

definition destroy :: "nat \<Rightarrow> val option list \<Rightarrow> error + val option list" where
  \<comment> \<open>the destructor of the holder \<open>h\<close>; destroying twice is undefined\<close>
  "destroy h hp =
     (if h < length hp \<and> hp ! h \<noteq> None then Inr (hp[h := None]) else Inl Undefined_Behaviour)"

definition lookup :: "storage \<Rightarrow> iterator \<Rightarrow> error + (entity \<times> elem)" where
  \<comment> \<open>\<open>en->second\<close>: dereferencing \<open>end()\<close> or an erased node is undefined\<close>
  "lookup st en =
     (case en of
        None \<Rightarrow> Inl Undefined_Behaviour
      | Some k \<Rightarrow>
          (case map_of (entities st) k of
             None \<Rightarrow> Inl Undefined_Behaviour
           | Some e \<Rightarrow> Inr (k, e)))"

definition store_elem :: "entity \<Rightarrow> elem \<Rightarrow> storage \<Rightarrow> storage" where
  \<comment> \<open>the write through the reference \<open>elem& e\<close>: the node keeps its place\<close>
  "store_elem k e st =
     st\<lparr>entities := map (\<lambda>(k', e'). if k' = k then (k', e) else (k', e')) (entities st)\<rparr>"

subsection \<open>Offset resolver\<close>

text \<open>
  The linear scan: the sizes of the present components with an id below \<open>c\<close>, added in
  ascending order.  \<open>components_[i]\<close> is unchecked.
\<close>

primrec scan :: "component list \<Rightarrow> 64 word \<Rightarrow> nat \<Rightarrow> error + nat" where
  "scan comps m 0 = Inr 0"
| "scan comps m (Suc c) =
     (case scan comps m c of
        Inl err \<Rightarrow> Inl err
      | Inr acc \<Rightarrow>
          if bit m c then
            (if c < length comps then Inr (acc + c_size (comps ! c)) else Inl Undefined_Behaviour)
          else Inr acc)"

definition cached :: "nat list \<Rightarrow> 64 word \<Rightarrow> nat \<Rightarrow> error + nat" where
  "cached offs m c =
     (let idx = unat (m AND cache_mask AND mask c)
      in if idx < length offs then Inr (offs ! idx) else Inl Undefined_Behaviour)"

text \<open>
  Modelled from the spec: \<open>storage::offset\<close> is declared in \<open>storage.hpp\<close> and defined in
  \<open>storage.cpp\<close>, which is not part of the sources.  Spec, Offset Resolver: for an id
  below 12 the cache is looked up with the presence bits restricted to ids 0-11; otherwise
  the sizes of the present components with a smaller id are summed.  The cache that
  \<open>register_component\<close> builds is indexed by a set of component ids and holds the sum of
  their sizes, and the spec has it give the cumulative byte offset of a component, so the
  index for id \<open>c\<close> is the set of present ids below \<open>c\<close>.
\<close>

definition offset :: "storage \<Rightarrow> elem \<Rightarrow> component_id \<Rightarrow> error + nat" where
  "offset st e c =
     (if c < cache_size then cached (component_offsets st) (components e) c
      else scan (registered st) (components e) c)"

subsection \<open>Component registry\<close>

text \<open>
  The loop \<open>for (size_t j (i); j != i * 2; ++j) component_offsets_[j] =
  component_offsets_[j-i] + size;\<close> of \<open>register_component\<close>.
\<close>

function fill :: "nat \<Rightarrow> nat \<Rightarrow> nat \<Rightarrow> nat list \<Rightarrow> nat list" where
  "fill i sz j offs =
     (if j < i * 2 then fill i sz (Suc j) (offs[j := offs ! (j - i) + sz]) else offs)"
  by pat_completeness auto
termination
  by (relation "measure (\<lambda>(i, sz, j, offs). i * 2 - j)") auto

declare fill.simps [simp del]

definition register_component :: "ctype \<Rightarrow> string \<Rightarrow> storage \<Rightarrow> error + (component_id \<times> storage)" where
  "register_component ty nm st =
     (let n = length (registered st);
          sz = size_of ty;
          comp = \<lparr>c_name = nm, c_size = sz, c_flat = is_flat ty\<rparr>
      in case (if is_flat ty then Inr (flat_mask st) else bitset_set (flat_mask st) n) of
           Inl err \<Rightarrow> Inl err
         | Inr fm \<Rightarrow>
             let st1 = st\<lparr>registered := registered st @ [comp], flat_mask := fm\<rparr>;
                 st2 = (if length (registered st1) < cache_size then
                          let i = length (component_offsets st1)
                          in st1\<lparr>component_offsets :=
                                fill i sz i (component_offsets st1 @ replicate i 0)\<rparr>
                        else st1)
             in Inr ((length (registered st2) - 1) mod 256, st2))"

text \<open>
  Modelled from the spec: the constructor \<open>storage::storage()\<close> (\<open>storage.cpp\<close>).  No
  component and no entity; the offset cache holds the single entry for the empty
  presence mask, which the doubling of \<open>register_component\<close> starts from.
\<close>

definition new_storage :: storage where
  "new_storage =
     \<lparr>next_id = 0, registered = [], entities = [], component_offsets = [0],
      flat_mask = 0, heap = []\<rparr>"


subsection \<open>Entity lookup\<close>

text \<open>
  Modelled from the spec: \<open>storage::find\<close> (declared only): the handle of the entity, or
  absent (\<open>end()\<close>).
\<close>

definition find_entity :: "storage \<Rightarrow> entity \<Rightarrow> iterator" where
  "find_entity st en = (case map_of (entities st) en of None \<Rightarrow> None | Some e \<Rightarrow> Some en)"

definition exists :: "storage \<Rightarrow> entity \<Rightarrow> bool" where
  \<comment> \<open>\<open>return entities_.count(en);\<close>\<close>
  "exists st en = (map_of (entities st) en \<noteq> None)"

subsection \<open>Set and get\<close>

definition grow :: "component \<Rightarrow> component_id \<Rightarrow> nat \<Rightarrow> elem \<Rightarrow> elem" where
  \<comment> \<open>the block under \<open>if (!e.components[c_id])\<close>: \<open>resize\<close> or \<open>insert\<close> of zero bytes, then
      \<open>e.components.set(c_id)\<close> (here \<open>c_id < 64\<close>, so it does not throw)\<close>
  "grow c c_id off e =
     e\<lparr>data :=
         (if length (data e) < off
          then data e @ replicate (off + c_size c - length (data e)) (Raw 0)
          else insert_at off (replicate (c_size c) (Raw 0)) (data e)),
       components := set_bit c_id (components e)\<rparr>"

definition set_iter :: "ctype \<Rightarrow> iterator \<Rightarrow> component_id \<Rightarrow> val \<Rightarrow> storage \<Rightarrow> error + storage" where
  "set_iter ty en c_id v st =
     (if \<not> c_id < length (registered st) then Inl Assertion_Failed
      else
        let c = registered st ! c_id in
        (case lookup st en of
           Inl err \<Rightarrow> Inl err
         | Inr (k, e) \<Rightarrow>
        (case offset st e c_id of
           Inl err \<Rightarrow> Inl err
         | Inr off \<Rightarrow>
        (case bitset_test (components e) c_id of
           Inl err \<Rightarrow> Inl err
         | Inr present \<Rightarrow>
        (let e1 = (if \<not> present then grow c c_id off e else e) in
         if \<not> off + size_of ty \<le> length (data e1) then Inl Assertion_Failed
         else
           (case construct ty v (heap st) of (cells, hp) \<Rightarrow>
              Inr (store_elem k
                     (e1\<lparr>data := place off cells (data e1), dirty := set_bit c_id (dirty e1)\<rparr>)
                     (st\<lparr>heap := hp\<rparr>))))))))"

definition set_entity :: "ctype \<Rightarrow> entity \<Rightarrow> component_id \<Rightarrow> val \<Rightarrow> storage \<Rightarrow> error + storage" where
  \<comment> \<open>\<open>return set<type>(find(en), c_id, std::move(val));\<close>\<close>
  "set_entity ty en c_id v st = set_iter ty (find_entity st en) c_id v st"

definition get_elem :: "ctype \<Rightarrow> elem \<Rightarrow> component_id \<Rightarrow> storage \<Rightarrow> error + val" where
  \<comment> \<open>the private \<open>get<type>(const elem&, component_id)\<close>\<close>
  "get_elem ty e c_id st =
     (case offset st e c_id of
        Inl err \<Rightarrow> Inl err
      | Inr off \<Rightarrow>
          if is_flat ty then read_flat off (size_of ty) (data e)
          else read_held (heap st) off (size_of ty) (data e))"

definition get_iter :: "ctype \<Rightarrow> iterator \<Rightarrow> component_id \<Rightarrow> storage \<Rightarrow> error + val" where
  "get_iter ty en c_id st =
     (case lookup st en of
        Inl err \<Rightarrow> Inl err
      | Inr (k, e) \<Rightarrow>
          (case bitset_test (components e) c_id of
             Inl err \<Rightarrow> Inl err
           | Inr present \<Rightarrow>
               if \<not> present then Inl (Logic_Error ''entity does not have component'')
               else get_elem ty e c_id st))"

definition get_entity :: "ctype \<Rightarrow> entity \<Rightarrow> component_id \<Rightarrow> storage \<Rightarrow> error + val" where
  \<comment> \<open>\<open>return get<type>(find(en), c_id);\<close>\<close>
  "get_entity ty en c_id st = get_iter ty (find_entity st en) c_id st"

subsection \<open>Variable references\<close>

record var_ref =
  vr_offset :: nat              \<comment> \<open>\<open>offset_\<close>\<close>
  vr_elem :: entity             \<comment> \<open>\<open>e_\<close>, the record referred to\<close>
  vr_component :: component_id  \<comment> \<open>\<open>component_\<close>\<close>

definition touch :: "var_ref \<Rightarrow> storage \<Rightarrow> error + storage" where
  \<comment> \<open>\<open>e_.dirty.set(component_);\<close>\<close>
  "touch vr st =
     (case lookup st (Some (vr_elem vr)) of
        Inl err \<Rightarrow> Inl err
      | Inr (k, e) \<Rightarrow>
          (case bitset_set (dirty e) (vr_component vr) of
             Inl err \<Rightarrow> Inl err
           | Inr d \<Rightarrow> Inr (store_elem k (e\<lparr>dirty := d\<rparr>) st)))"

definition var_read :: "ctype \<Rightarrow> var_ref \<Rightarrow> storage \<Rightarrow> error + val" where
  \<comment> \<open>\<open>operator const type& () const\<close>\<close>
  "var_read ty vr st =
     (case lookup st (Some (vr_elem vr)) of
        Inl err \<Rightarrow> Inl err
      | Inr (k, e) \<Rightarrow>
          if is_flat ty then read_flat (vr_offset vr) (size_of ty) (data e)
          else read_held (heap st) (vr_offset vr) (size_of ty) (data e))"

definition var_assign :: "ctype \<Rightarrow> var_ref \<Rightarrow> val \<Rightarrow> storage \<Rightarrow> error + storage" where
  \<comment> \<open>\<open>operator= (type assign)\<close>: placement without a bounds check, then \<open>touch()\<close>\<close>
  "var_assign ty vr v st =
     (case lookup st (Some (vr_elem vr)) of
        Inl err \<Rightarrow> Inl err
      | Inr (k, e) \<Rightarrow>
          if \<not> vr_offset vr + size_of ty \<le> length (data e) then Inl Undefined_Behaviour
          else
            (case construct ty v (heap st) of (cells, hp) \<Rightarrow>
               touch vr (store_elem k (e\<lparr>data := place (vr_offset vr) cells (data e)\<rparr>)
                           (st\<lparr>heap := hp\<rparr>))))"

definition var_compound :: "ctype \<Rightarrow> var_ref \<Rightarrow> (val \<Rightarrow> val) \<Rightarrow> storage \<Rightarrow> error + storage" where
  \<comment> \<open>\<open>operator+=\<close>, \<open>-=\<close>, \<open>*=\<close>, \<open>/=\<close>: \<open>get() op= val; touch();\<close> with the arithmetic \<open>f\<close> of
      the value's type\<close>
  "var_compound ty vr f st =
     (case lookup st (Some (vr_elem vr)) of
        Inl err \<Rightarrow> Inl err
      | Inr (k, e) \<Rightarrow>
          if is_flat ty then
            (case read_flat (vr_offset vr) (size_of ty) (data e) of
               Inl err \<Rightarrow> Inl err
             | Inr v \<Rightarrow>
                 touch vr (store_elem k
                   (e\<lparr>data := place (vr_offset vr) (map Raw (f v)) (data e)\<rparr>) st))
          else
            (case held_handle (vr_offset vr) (size_of ty) (data e) of
               Inl err \<Rightarrow> Inl err
             | Inr h \<Rightarrow>
                 if h < length (heap st) then
                   (case heap st ! h of
                      None \<Rightarrow> Inl Undefined_Behaviour
                    | Some v \<Rightarrow> touch vr (st\<lparr>heap := (heap st)[h := Some (f v)]\<rparr>))
                 else Inl Undefined_Behaviour))"

subsection \<open>Raw data\<close>

definition get_raw_data :: "iterator \<Rightarrow> storage \<Rightarrow> error + (64 word \<times> cell list)" where
  "get_raw_data en st =
     (case lookup st en of
        Inl err \<Rightarrow> Inl err
      | Inr (k, e) \<Rightarrow> Inr (components e, data e))"

definition set_raw_data :: "iterator \<Rightarrow> 64 word \<Rightarrow> cell list \<Rightarrow> storage \<Rightarrow> error + storage" where
  \<comment> \<open>both overloads: \<open>en->second.components = components; en->second.data = data;\<close>\<close>
  "set_raw_data en m d st =
     (case lookup st en of
        Inl err \<Rightarrow> Inl err
      | Inr (k, e) \<Rightarrow> Inr (store_elem k (e\<lparr>components := m, data := d\<rparr>) st))"

subsection \<open>Sizes and invariants\<close>

text \<open>
  The sum of the sizes of those components with an id below \<open>c\<close> that \<open>P\<close> selects, added
  in ascending order of the id.
\<close>

primrec bits_size :: "component list \<Rightarrow> (nat \<Rightarrow> bool) \<Rightarrow> nat \<Rightarrow> nat" where
  "bits_size comps P 0 = 0"
| "bits_size comps P (Suc c) = bits_size comps P c + (if P c then c_size (comps ! c) else 0)"

text \<open>
  The offset cache holds, for every set of the cached component ids, the sum of their
  sizes.  \<open>register_component\<close> doubles the cache while \<open>components_.size() < cache_size\<close>
  holds after the new component was appended.
\<close>

definition cache_ok :: "storage \<Rightarrow> bool" where
  "cache_ok st =
     (let k = min (length (registered st)) (cache_size - 1)
      in component_offsets st = map (\<lambda>idx. bits_size (registered st) (bit idx) k) [0..<2 ^ k])"

fun register_all :: "(ctype \<times> string) list \<Rightarrow> storage \<Rightarrow> error + storage" where
  "register_all [] st = Inr st"
| "register_all ((ty, nm) # rest) st =
     (case register_component ty nm st of
        Inl err \<Rightarrow> Inl err
      | Inr (c, st') \<Rightarrow> register_all rest st')"

text \<open>
  The packing invariant of a record: every present component is registered, and the
  buffer is as long as the sizes of the present components together.
\<close>

definition packed :: "component list \<Rightarrow> elem \<Rightarrow> bool" where
  "packed comps e =
     (list_all (\<lambda>i. bit (components e) i \<longrightarrow> i < length comps) [0..<64] \<and>
      length (data e) = bits_size comps (bit (components e)) (length comps))"

definition store_ok :: "storage \<Rightarrow> bool" where
  "store_ok st =
     (cache_ok st \<and> distinct (map fst (entities st)) \<and>
      list_all (\<lambda>(k, e). packed (registered st) e) (entities st))"

text \<open>
  The template argument of a typed operation is the type the component was registered
  with; a value of a flat type has \<open>sizeof(type)\<close> bytes; no type has size 0.
\<close>

definition type_matches :: "component \<Rightarrow> ctype \<Rightarrow> bool" where
  "type_matches cp ty = (c_flat cp = is_flat ty \<and> c_size cp = size_of ty \<and> 0 < size_of ty)"

definition valid_value :: "ctype \<Rightarrow> val \<Rightarrow> bool" where
  "valid_value ty v = (is_flat ty \<longrightarrow> length v = size_of ty)"

definition empty_elem :: elem where
  "empty_elem = \<lparr>components = 0, dirty = 0, data = []\<rparr>"

text \<open>
  The slot of the present component \<open>c\<close> holds a validly constructed value: raw bytes for
  a flat component, the representation of a live holder otherwise.
\<close>

definition slot_valid :: "storage \<Rightarrow> elem \<Rightarrow> component_id \<Rightarrow> bool" where
  "slot_valid st e c =
     (let cp = registered st ! c;
          off = bits_size (registered st) (bit (components e)) c
      in if c_flat cp then unraw (slot off (c_size cp) (data e)) \<noteq> None
         else (case held_handle off (c_size cp) (data e) of
                 Inl err \<Rightarrow> False
               | Inr h \<Rightarrow> h < length (heap st) \<and> heap st ! h \<noteq> None))"

subsection \<open>Layout of a record\<close>

text \<open>
  The slot of the component \<open>c\<close> in the buffer of a record: the \<open>size\<close> chars that start
  at the sum of the sizes of the present components with a smaller id.  \<open>present_ids\<close> are
  the ids of the presence mask in ascending order, \<open>contents\<close> maps every present
  component to the chars of its slot.
\<close>

definition component_slot :: "component list \<Rightarrow> elem \<Rightarrow> component_id \<Rightarrow> cell list" where
  "component_slot comps e c =
     slot (bits_size comps (bit (components e)) c) (c_size (comps ! c)) (data e)"

definition present_ids :: "component list \<Rightarrow> elem \<Rightarrow> component_id list" where
  "present_ids comps e = filter (bit (components e)) [0..<length comps]"

definition contents :: "component list \<Rightarrow> elem \<Rightarrow> component_id \<Rightarrow> cell list option" where
  "contents comps e c = (if bit (components e) c then Some (component_slot comps e c) else None)"

subsection \<open>Entity lifecycle\<close>

text \<open>
  Modelled from the spec: \<open>storage::new_entity\<close> (declared only).  Spec, Entity Table:
  allocates the next unused id and creates an empty record; ids come from a monotonic
  counter.  The counter is \<open>next_id_\<close>; a record that already sits under that id (possible
  after the 32-bit counter wrapped) is left as it is.
\<close>

definition new_entity :: "storage \<Rightarrow> entity \<times> storage" where
  "new_entity st =
     (let k = next_id st
      in (k, st\<lparr>entities := (if map_of (entities st) k = None
                               then entities st @ [(k, empty_elem)] else entities st),
                 next_id := k + 1\<rparr>))"

definition boxed_ids :: "storage \<Rightarrow> elem \<Rightarrow> component_id list" where
  \<comment> \<open>the present non-flat components of a record, in ascending order\<close>
  "boxed_ids st e =
     filter (\<lambda>c. bit (components e) c \<and> \<not> c_flat (registered st ! c))
       [0..<length (registered st)]"

fun destroy_all :: "storage \<Rightarrow> elem \<Rightarrow> component_id list \<Rightarrow> val option list \<Rightarrow> error + val option list" where
  "destroy_all st e [] hp = Inr hp"
| "destroy_all st e (c # cs) hp =
     (case offset st e c of
        Inl err \<Rightarrow> Inl err
      | Inr off \<Rightarrow>
          (case held_handle off (c_size (registered st ! c)) (data e) of
             Inl err \<Rightarrow> Inl err
           | Inr h \<Rightarrow>
               (case destroy h hp of
                  Inl err \<Rightarrow> Inl err
                | Inr hp' \<Rightarrow> destroy_all st e cs hp')))"

text \<open>
  Modelled from the spec: \<open>storage::delete_entity\<close> (both overloads are declared only).
  Spec, Entity Table: before the bookkeeping is removed, the held value of every present
  non-flat slot is destroyed; flat slots need no teardown; the entity overload returns
  whether the entity existed.  Erasing a node keeps the order of the other nodes.
\<close>

definition delete_entity_iter :: "iterator \<Rightarrow> storage \<Rightarrow> error + storage" where
  "delete_entity_iter f st =
     (case lookup st f of
        Inl err \<Rightarrow> Inl err
      | Inr (k, e) \<Rightarrow>
          (case destroy_all st e (boxed_ids st e) (heap st) of
             Inl err \<Rightarrow> Inl err
           | Inr hp \<Rightarrow>
               Inr (st\<lparr>entities := filter (\<lambda>(k', e'). k' \<noteq> k) (entities st), heap := hp\<rparr>)))"

definition delete_entity :: "entity \<Rightarrow> storage \<Rightarrow> error + (bool \<times> storage)" where
  "delete_entity en st =
     (case find_entity st en of
        None \<Rightarrow> Inr (False, st)
      | Some k \<Rightarrow>
          (case delete_entity_iter (Some k) st of
             Inl err \<Rightarrow> Inl err
           | Inr st' \<Rightarrow> Inr (True, st')))"

text \<open>
  Modelled from the spec: \<open>storage::remove_component_from_entity\<close> (declared only).  Spec,
  Entity Table: clears the presence and the dirty bit of the id, destroys the held value
  if the component is not flat, removes the byte range of the component from the buffer
  and shifts the bytes after it to the left.  An absent component holds no value and has
  no byte range: nothing is removed then.
\<close>

definition remove_component_from_entity :: "iterator \<Rightarrow> component_id \<Rightarrow> storage \<Rightarrow> error + storage" where
  "remove_component_from_entity en c st =
     (case lookup st en of
        Inl err \<Rightarrow> Inl err
      | Inr (k, e) \<Rightarrow>
          (case bitset_test (components e) c of
             Inl err \<Rightarrow> Inl err
           | Inr present \<Rightarrow>
               if \<not> present then Inr st
               else if \<not> c < length (registered st) then Inl Undefined_Behaviour
               else
                 (case offset st e c of
                    Inl err \<Rightarrow> Inl err
                  | Inr off \<Rightarrow>
                      (let cp = registered st ! c in
                       if \<not> off + c_size cp \<le> length (data e) then Inl Undefined_Behaviour
                       else
                         (case (if c_flat cp then Inr (heap st)
                                else (case held_handle off (c_size cp) (data e) of
                                        Inl err \<Rightarrow> Inl err
                                      | Inr h \<Rightarrow> destroy h (heap st))) of
                            Inl err \<Rightarrow> Inl err
                          | Inr hp \<Rightarrow>
                              Inr (store_elem k
                                     (e\<lparr>components := unset_bit c (components e),
                                        dirty := unset_bit c (dirty e),
                                        data := erase_at off (c_size cp) (data e)\<rparr>)
                                     (st\<lparr>heap := hp\<rparr>)))))))"

fun clone_held :: "storage \<Rightarrow> elem \<Rightarrow> component_id list \<Rightarrow> cell list \<times> val option list \<Rightarrow>
    error + (cell list \<times> val option list)" where
  "clone_held st e [] (d, hp) = Inr (d, hp)"
| "clone_held st e (c # cs) (d, hp) =
     (case offset st e c of
        Inl err \<Rightarrow> Inl err
      | Inr off \<Rightarrow>
          (case read_held hp off (c_size (registered st ! c)) (data e) of
             Inl err \<Rightarrow> Inl err
           | Inr v \<Rightarrow>
               clone_held st e cs
                 (place off (replicate (c_size (registered st ! c)) (Held (length hp))) d,
                  hp @ [Some v])))"

text \<open>
  Modelled from the spec: \<open>storage::clone_entity\<close> (declared only).  Spec, Entity Table:
  copies the presence and dirty masks and the whole buffer; the holder of every present
  non-flat slot is cloned (a new held value of its own), flat slots are copied as bytes;
  the clone gets the next id of the counter.
\<close>

definition clone_entity :: "iterator \<Rightarrow> storage \<Rightarrow> error + (entity \<times> storage)" where
  "clone_entity f st =
     (case lookup st f of
        Inl err \<Rightarrow> Inl err
      | Inr (k, e) \<Rightarrow>
          (case clone_held st e (boxed_ids st e) (data e, heap st) of
             Inl err \<Rightarrow> Inl err
           | Inr (d, hp) \<Rightarrow>
               (let k' = next_id st;
                    e' = e\<lparr>data := d\<rparr>
                in Inr (k', (if map_of (entities st) k' = None
                             then st\<lparr>entities := entities st @ [(k', e')]\<rparr>
                             else store_elem k' e' st)
                            \<lparr>next_id := k' + 1, heap := hp\<rparr>))))"

subsection \<open>Dirty tracking\<close>

text \<open>
  Modelled from the spec: \<open>check_dirty\<close>, \<open>check_dirty_and_clear\<close>, \<open>check_dirty_flag\<close> and
  \<open>check_dirty_flag_and_clear\<close> (declared only).  Spec, Dirty Tracking: \<open>check_dirty\<close> tells
  whether any bit of the dirty mask is set, \<open>check_dirty_and_clear\<close> then clears the whole
  mask; the flag variants do the same for the single bit of a component.
\<close>

definition check_dirty :: "iterator \<Rightarrow> storage \<Rightarrow> error + bool" where
  "check_dirty en st =
     (case lookup st en of
        Inl err \<Rightarrow> Inl err
      | Inr (k, e) \<Rightarrow> Inr (dirty e \<noteq> 0))"

definition check_dirty_and_clear :: "iterator \<Rightarrow> storage \<Rightarrow> error + (bool \<times> storage)" where
  "check_dirty_and_clear en st =
     (case lookup st en of
        Inl err \<Rightarrow> Inl err
      | Inr (k, e) \<Rightarrow> Inr (dirty e \<noteq> 0, store_elem k (e\<lparr>dirty := 0\<rparr>) st))"

definition check_dirty_flag :: "iterator \<Rightarrow> component_id \<Rightarrow> storage \<Rightarrow> error + bool" where
  "check_dirty_flag en c_id st =
     (case lookup st en of
        Inl err \<Rightarrow> Inl err
      | Inr (k, e) \<Rightarrow> bitset_test (dirty e) c_id)"

definition check_dirty_flag_and_clear :: "iterator \<Rightarrow> component_id \<Rightarrow> storage \<Rightarrow> error + (bool \<times> storage)" where
  "check_dirty_flag_and_clear en c_id st =
     (case lookup st en of
        Inl err \<Rightarrow> Inl err
      | Inr (k, e) \<Rightarrow>
          (case bitset_test (dirty e) c_id of
             Inl err \<Rightarrow> Inl err
           | Inr b \<Rightarrow> Inr (b, store_elem k (e\<lparr>dirty := unset_bit c_id (dirty e)\<rparr>) st)))"

subsection \<open>Iteration\<close>

definition begin_iter :: "storage \<Rightarrow> iterator" where
  \<comment> \<open>\<open>entities_.begin()\<close>\<close>
  "begin_iter st = (case entities st of [] \<Rightarrow> None | (k, e) # rest \<Rightarrow> Some k)"

definition next_iter :: "storage \<Rightarrow> entity \<Rightarrow> iterator" where
  \<comment> \<open>\<open>std::next(i)\<close> for the iterator \<open>i\<close> at key \<open>k\<close>\<close>
  "next_iter st k =
     (case dropWhile (\<lambda>(k', e). k' \<noteq> k) (entities st) of
        x # (k2, e2) # rest \<Rightarrow> Some k2
      | _ \<Rightarrow> None)"

text \<open>
  The loop of \<open>for_each\<close> (one component).  The callback \<open>func\<close> gets the iterator and the
  variable reference; it works on the storage and on the state \<open>'u\<close> it has captured.  A
  callback may insert entities for ever, so the loop need not end: the result is \<open>None\<close>
  then.
\<close>

partial_function (option) for_each_loop ::
  "component_id \<Rightarrow> (iterator \<Rightarrow> var_ref \<Rightarrow> 'u \<times> storage \<Rightarrow> error + 'u \<times> storage) \<Rightarrow> 64 word \<Rightarrow>
   iterator \<Rightarrow> 'u \<times> storage \<Rightarrow> (error + 'u \<times> storage) option" where
  "for_each_loop c func sel i s =
     (case i of
        None \<Rightarrow> Some (Inr s)
      | Some k \<Rightarrow>
        (case lookup (snd s) i of
           Inl err \<Rightarrow> Some (Inl err)
         | Inr (k', e) \<Rightarrow>
             let nxt = next_iter (snd s) k in
             if components e AND sel = sel then
               (case offset (snd s) e c of
                  Inl err \<Rightarrow> Some (Inl err)
                | Inr off \<Rightarrow>
                  (case func i \<lparr>vr_offset = off, vr_elem = k, vr_component = c\<rparr> s of
                     Inl err \<Rightarrow> Some (Inl err)
                   | Inr s' \<Rightarrow> for_each_loop c func sel nxt s'))
             else for_each_loop c func sel nxt s))"

definition for_each ::
  "component_id \<Rightarrow> (iterator \<Rightarrow> var_ref \<Rightarrow> 'u \<times> storage \<Rightarrow> error + 'u \<times> storage) \<Rightarrow>
   'u \<times> storage \<Rightarrow> (error + 'u \<times> storage) option" where
  "for_each c func s =
     (case bitset_set 0 c of
        Inl err \<Rightarrow> Some (Inl err)
      | Inr sel \<Rightarrow> for_each_loop c func sel (begin_iter (snd s)) s)"

text \<open>A callback that records the entity it is called for and deletes it if \<open>del\<close> says so.\<close>

definition visit_delete ::
  "(entity \<Rightarrow> bool) \<Rightarrow> iterator \<Rightarrow> var_ref \<Rightarrow> entity list \<times> storage \<Rightarrow> error + entity list \<times> storage" where
  "visit_delete del i vr s =
     (case i of
        None \<Rightarrow> Inl Undefined_Behaviour
      | Some k \<Rightarrow>
          if del k then
            (case delete_entity_iter i (snd s) of
               Inl err \<Rightarrow> Inl err
             | Inr st' \<Rightarrow> Inr (fst s @ [k], st'))
          else Inr (fst s @ [k], snd s))"

subsection \<open>The typed interface as a transition relation\<close>

text \<open>
  One call of an operation of the typed interface that returns normally and changes the
  storage.  (\<open>get\<close>, \<open>find\<close>, \<open>exists\<close>, \<open>check_dirty\<close>, \<open>check_dirty_flag\<close> and
  \<open>get_raw_data\<close> leave the storage as it is; \<open>set(entity, ...)\<close> is \<open>set_iter\<close> at
  \<open>find(entity)\<close>.)  A variable reference is used on a component that its record holds; the
  arithmetic of a compound assignment keeps the size of a value.  \<open>set_raw_data\<close> is not
  part of the typed interface.
\<close>

inductive step :: "storage \<Rightarrow> storage \<Rightarrow> bool" where
  step_register: "register_component ty nm st = Inr (c, st') \<Longrightarrow> step st st'"
| step_new_entity: "new_entity st = (k, st') \<Longrightarrow> step st st'"
| step_set: "valid_value ty v \<Longrightarrow> set_iter ty en c v st = Inr st' \<Longrightarrow> step st st'"
| step_remove: "remove_component_from_entity en c st = Inr st' \<Longrightarrow> step st st'"
| step_clone: "clone_entity f st = Inr (k, st') \<Longrightarrow> step st st'"
| step_delete: "delete_entity_iter f st = Inr st' \<Longrightarrow> step st st'"
| step_dirty_clear: "check_dirty_and_clear en st = Inr (b, st') \<Longrightarrow> step st st'"
| step_flag_clear: "check_dirty_flag_and_clear en c st = Inr (b, st') \<Longrightarrow> step st st'"
| step_assign:
    "lookup st (Some (vr_elem vr)) = Inr (k, e) \<Longrightarrow> bit (components e) (vr_component vr) \<Longrightarrow>
     valid_value ty v \<Longrightarrow> var_assign ty vr v st = Inr st' \<Longrightarrow> step st st'"
| step_compound:
    "lookup st (Some (vr_elem vr)) = Inr (k, e) \<Longrightarrow> bit (components e) (vr_component vr) \<Longrightarrow>
     (\<And>v. length (f v) = length v) \<Longrightarrow> var_compound ty vr f st = Inr st' \<Longrightarrow> step st st'"

inductive reachable :: "storage \<Rightarrow> bool" where
  reachable_new: "reachable new_storage"
| reachable_step: "reachable st \<Longrightarrow> step st st' \<Longrightarrow> reachable st'"

definition dirty_sub :: "storage \<Rightarrow> bool" where
  \<comment> \<open>in every record the dirty mask is a subset of the presence mask\<close>
  "dirty_sub st = list_all (\<lambda>(k, e). dirty e AND components e = dirty e) (entities st)"

subsection \<open>Ownership of the held values\<close>

text \<open>
  The holder in the slot of a present non-flat component, if the slot holds one.  The
  table owns the held values: every such slot holds a live holder, and no two slots hold
  the same one.
\<close>

definition slot_handle :: "storage \<Rightarrow> elem \<Rightarrow> component_id \<Rightarrow> nat option" where
  "slot_handle st e c =
     (case offset st e c of
        Inl err \<Rightarrow> None
      | Inr off \<Rightarrow>
          (case held_handle off (c_size (registered st ! c)) (data e) of
             Inl err \<Rightarrow> None
           | Inr h \<Rightarrow> Some h))"

definition elem_handles :: "storage \<Rightarrow> elem \<Rightarrow> nat option list" where
  "elem_handles st e = map (slot_handle st e) (boxed_ids st e)"

definition all_handles :: "storage \<Rightarrow> nat option list" where
  "all_handles st = concat (map (\<lambda>(k, e). elem_handles st e) (entities st))"

definition live :: "val option list \<Rightarrow> nat option \<Rightarrow> bool" where
  "live hp x = (case x of None \<Rightarrow> False | Some h \<Rightarrow> h < length hp \<and> hp ! h \<noteq> None)"

definition owned_ok :: "storage \<Rightarrow> bool" where
  "owned_ok st = (distinct (all_handles st) \<and> list_all (live (heap st)) (all_handles st))"

subsection \<open>Example data\<close>

text \<open>
  The scenario of the spec: a flat component \<open>position\<close> of 8 bytes (id 0) and a non-flat
  component \<open>name\<close> (id 1, a holder of 32 bytes), and one entity.
\<close>

definition position_t :: ctype where
  "position_t = \<lparr>is_flat = True, size_of = 8\<rparr>"

definition name_t :: ctype where
  "name_t = \<lparr>is_flat = False, size_of = 32\<rparr>"

definition demo_registry :: storage where
  "demo_registry =
     \<lparr>next_id = 0,
      registered = [\<lparr>c_name = ''position'', c_size = 8, c_flat = True\<rparr>,
                    \<lparr>c_name = ''name'', c_size = 32, c_flat = False\<rparr>],
      entities = [],
      component_offsets = [0, 8, 32, 40],
      flat_mask = 2,
      heap = []\<rparr>"

definition demo_store :: storage where
  "demo_store = demo_registry\<lparr>next_id := 1, entities := [(0, empty_elem)]\<rparr>"

definition byte_t :: ctype where
  "byte_t = \<lparr>is_flat = True, size_of = 1\<rparr>"

definition hero :: val where
  "hero = [104, 101, 114, 111]"

definition demo_hero :: storage where
  \<comment> \<open>\<open>demo_store\<close> after \<open>set(e, 0, {1, 2})\<close> and \<open>set(e, 1, "hero")\<close>\<close>
  "demo_hero =
     demo_registry
       \<lparr>next_id := 1,
        entities := [(0, \<lparr>components = 3, dirty = 3,
                          data = map Raw [1, 0, 0, 0, 2, 0, 0, 0] @ replicate 32 (Held 0)\<rparr>)],
        heap := [Some hero]\<rparr>"

definition demo_position :: storage where
  \<comment> \<open>\<open>demo_store\<close> after \<open>set(e, 0, {1, 2})\<close>\<close>
  "demo_position =
     demo_registry
       \<lparr>next_id := 1,
        entities := [(0, \<lparr>components = 1, dirty = 1,
                          data = map Raw [1, 0, 0, 0, 2, 0, 0, 0]\<rparr>)]\<rparr>"

definition demo_pair :: storage where
  \<comment> \<open>\<open>demo_hero\<close> and a second entity that has a position only\<close>
  "demo_pair =
     demo_registry
       \<lparr>next_id := 2,
        entities := [(0, \<lparr>components = 3, dirty = 3,
                          data = map Raw [1, 0, 0, 0, 2, 0, 0, 0] @ replicate 32 (Held 0)\<rparr>),
                     (1, \<lparr>components = 1, dirty = 1,
                          data = map Raw [3, 0, 0, 0, 4, 0, 0, 0]\<rparr>)],
        heap := [Some hero]\<rparr>"

text \<open>
  The same entity with the components set in the other order: the name first, so that the
  later \<open>set\<close> of the position has to insert its bytes in front of the holder.  Then the
  clone of the entity.
\<close>

definition name_record :: elem where
  "name_record = \<lparr>components = 2, dirty = 2, data = replicate 32 (Held 0)\<rparr>"

definition hero_record :: elem where
  "hero_record =
     \<lparr>components = 3, dirty = 3, data = map Raw [1, 0, 0, 0, 2, 0, 0, 0] @ replicate 32 (Held 0)\<rparr>"

definition demo_name :: storage where
  \<comment> \<open>\<open>demo_store\<close> after \<open>set(e, 1, "hero")\<close>\<close>
  "demo_name =
     demo_registry\<lparr>next_id := 1, entities := [(0, name_record)], heap := [Some hero]\<rparr>"

definition demo_clone :: storage where
  \<comment> \<open>\<open>demo_hero\<close> after \<open>clone_entity(e)\<close>\<close>
  "demo_clone =
     demo_registry
       \<lparr>next_id := 2,
        entities := [(0, hero_record),
                     (1, \<lparr>components = 3, dirty = 3,
                          data = map Raw [1, 0, 0, 0, 2, 0, 0, 0] @ replicate 32 (Held 1)\<rparr>)],
        heap := [Some hero, Some hero]\<rparr>"

section \<open>The offset cache\<close>


lemma fill_length: "length (fill i sz j offs) = length offs"
proof (induction i sz j offs rule: fill.induct)
  case (1 i sz j offs)
  show ?case
  proof (cases "j < i * 2")
    case True
    then show ?thesis using 1 by (subst fill.simps) simp
  next
    case False
    then show ?thesis by (subst fill.simps) simp
  qed
qed

lemma fill_nth:
  "i \<le> j \<Longrightarrow> p < length offs \<Longrightarrow>
   fill i sz j offs ! p = (if j \<le> p \<and> p < i * 2 then offs ! (p - i) + sz else offs ! p)"
proof (induction i sz j offs rule: fill.induct)
  case (1 i sz j offs)
  show ?case
  proof (cases "j < i * 2")
    case True
    have "fill i sz j offs ! p = fill i sz (Suc j) (offs[j := offs ! (j - i) + sz]) ! p"
      using True by (subst fill.simps) simp
    also have "\<dots> = (if Suc j \<le> p \<and> p < i * 2 then (offs[j := offs ! (j - i) + sz]) ! (p - i) + sz
                     else (offs[j := offs ! (j - i) + sz]) ! p)"
      using 1 True by simp
    also have "\<dots> = (if j \<le> p \<and> p < i * 2 then offs ! (p - i) + sz else offs ! p)"
    proof (cases "p = j")
      case True
      then show ?thesis using 1(2,3) \<open>j < i * 2\<close> by simp
    next
      case False
      then have "p - i \<noteq> j \<or> \<not> (Suc j \<le> p \<and> p < i * 2)" using 1(2) by arith
      then show ?thesis using False by (auto simp: nth_list_update)
    qed
    finally show ?thesis .
  next
    case False
    then show ?thesis by (subst fill.simps) auto
  qed
qed

lemma fill_double:
  assumes "length offs = i"
  shows "fill i sz i (offs @ replicate i 0) = offs @ map (\<lambda>x. x + sz) offs"
proof (rule nth_equalityI)
  show "length (fill i sz i (offs @ replicate i 0)) = length (offs @ map (\<lambda>x. x + sz) offs)"
    using assms by (simp add: fill_length)
next
  fix p assume "p < length (fill i sz i (offs @ replicate i 0))"
  then have p: "p < i * 2" using assms by (simp add: fill_length)
  show "fill i sz i (offs @ replicate i 0) ! p = (offs @ map (\<lambda>x. x + sz) offs) ! p"
  proof (cases "p < i")
    case True
    then show ?thesis using assms by (simp add: fill_nth nth_append)
  next
    case False
    then have "p - i < i" using p by arith
    then show ?thesis using assms False p by (simp add: fill_nth nth_append)
  qed
qed

lemma bits_size_cong:
  "(\<And>i. i < c \<Longrightarrow> P i = Q i) \<Longrightarrow> (\<And>i. i < c \<Longrightarrow> P i \<Longrightarrow> xs ! i = ys ! i) \<Longrightarrow>
   bits_size xs P c = bits_size ys Q c"
  by (induction c) auto

lemma bits_size_cut:
  "c \<le> k \<Longrightarrow> (\<And>i. c \<le> i \<Longrightarrow> i < k \<Longrightarrow> \<not> P i) \<Longrightarrow> bits_size xs P k = bits_size xs P c"
proof (induction k)
  case 0
  then show ?case by simp
next
  case (Suc k)
  show ?case
  proof (cases "c = Suc k")
    case True
    then show ?thesis by simp
  next
    case False
    with Suc.prems have "c \<le> k" by simp
    moreover have "\<not> P k" using Suc.prems(2)[of k] \<open>c \<le> k\<close> by simp
    ultimately show ?thesis using Suc by simp
  qed
qed

lemma bit_nat_low: "idx < 2 ^ k \<Longrightarrow> \<not> bit (idx::nat) k"
  by (simp add: bit_iff_odd)

lemma bit_nat_high:
  assumes "2 ^ k \<le> (idx::nat)" "idx < 2 ^ Suc k"
  shows "bit idx k" and "i < k \<Longrightarrow> bit (idx - 2 ^ k) i = bit idx i"
proof -
  have d: "idx div 2 ^ k = 1"
    using assms by (simp add: div_nat_eqI)
  then show "bit idx k" by (simp add: bit_iff_odd)
  have "idx mod 2 ^ k = idx - 2 ^ k"
    using d by (metis minus_mult_div_eq_mod mult.right_neutral)
  then have "idx - 2 ^ k = take_bit k idx" by (simp add: take_bit_eq_mod)
  then show "i < k \<Longrightarrow> bit (idx - 2 ^ k) i = bit idx i"
    by (simp add: bit_take_bit_iff)
qed

lemma table_double:
  assumes k: "k = length comps"
  shows "map (\<lambda>idx. bits_size (comps @ [cp]) (bit idx) (Suc k)) [0..<2 ^ Suc k] =
         map (\<lambda>idx. bits_size comps (bit idx) k) [0..<2 ^ k] @
         map (\<lambda>x. x + c_size cp) (map (\<lambda>idx. bits_size comps (bit idx) k) [0..<2 ^ k])"
proof (rule nth_equalityI)
  show "length (map (\<lambda>idx. bits_size (comps @ [cp]) (bit idx) (Suc k)) [0..<2 ^ Suc k]) =
        length (map (\<lambda>idx. bits_size comps (bit idx) k) [0..<2 ^ k] @
         map (\<lambda>x. x + c_size cp) (map (\<lambda>idx. bits_size comps (bit idx) k) [0..<2 ^ k]))"
    by simp
next
  fix p assume "p < length (map (\<lambda>idx. bits_size (comps @ [cp]) (bit idx) (Suc k)) [0..<2 ^ Suc k])"
  then have p: "p < 2 ^ Suc k" by simp
  have same: "bits_size (comps @ [cp]) P (length comps) = bits_size comps P (length comps)" for P
    by (rule bits_size_cong) (simp_all add: nth_append)
  show "map (\<lambda>idx. bits_size (comps @ [cp]) (bit idx) (Suc k)) [0..<2 ^ Suc k] ! p =
        (map (\<lambda>idx. bits_size comps (bit idx) k) [0..<2 ^ k] @
         map (\<lambda>x. x + c_size cp) (map (\<lambda>idx. bits_size comps (bit idx) k) [0..<2 ^ k])) ! p"
  proof (cases "p < 2 ^ k")
    case True
    then show ?thesis using p by (simp add: nth_append same bit_nat_low k del: upt_Suc)
  next
    case False
    then have ge: "2 ^ k \<le> p" by simp
    have q: "p - 2 ^ k < 2 ^ k" using p ge by simp
    have "bits_size comps (bit (p - 2 ^ k)) k = bits_size comps (bit p) k"
      by (rule bits_size_cong) (simp_all add: bit_nat_high(2)[OF ge p])
    then show ?thesis
      using p False q bit_nat_high(1)[OF ge p]
      by (simp add: nth_append same k del: upt_Suc power_Suc)
  qed
qed


lemma cache_ok_new: "cache_ok new_storage"
  by (simp add: cache_ok_def new_storage_def)

lemma cache_ok_length: "cache_ok st \<Longrightarrow> length (component_offsets st) = 2 ^ min (length (registered st)) (cache_size - 1)"
  by (simp add: cache_ok_def Let_def)

lemma register_component_fields:
  assumes "register_component ty nm st = Inr (c, st')"
  shows "registered st' = registered st @ [\<lparr>c_name = nm, c_size = size_of ty, c_flat = is_flat ty\<rparr>]"
    and "entities st' = entities st" and "heap st' = heap st" and "next_id st' = next_id st"
    and "c = length (registered st) mod 256"
    and "component_offsets st' =
          (if Suc (length (registered st)) < cache_size
           then component_offsets st @ map (\<lambda>x. x + size_of ty) (component_offsets st)
           else component_offsets st)"
  using assms
  by (auto simp: register_component_def Let_def fill_double split: sum.splits if_splits)

lemma register_component_cache_ok:
  assumes r: "register_component ty nm st = Inr (c, st')" and ok: "cache_ok st"
  shows "cache_ok st'"
proof -
  let ?cp = "\<lparr>c_name = nm, c_size = size_of ty, c_flat = is_flat ty\<rparr>"
  let ?n = "length (registered st)"
  note f = register_component_fields[OF r]
  show ?thesis
  proof (cases "Suc ?n < cache_size")
    case True
    then have k: "min ?n (cache_size - 1) = ?n" "min (Suc ?n) (cache_size - 1) = Suc ?n"
      by simp_all
    have "component_offsets st = map (\<lambda>idx. bits_size (registered st) (bit idx) ?n) [0..<2 ^ ?n]"
      using ok k by (simp add: cache_ok_def Let_def)
    then have "component_offsets st' =
        map (\<lambda>idx. bits_size (registered st @ [?cp]) (bit idx) (Suc ?n)) [0..<2 ^ Suc ?n]"
      using True f(6) table_double[of ?n "registered st" ?cp] by simp
    then show ?thesis using k f(1) by (simp add: cache_ok_def Let_def del: upt_Suc power_Suc)
  next
    case False
    then have k: "min ?n (cache_size - 1) = cache_size - 1"
        "min (Suc ?n) (cache_size - 1) = cache_size - 1"
      by simp_all
    have "bits_size (registered st @ [?cp]) P (cache_size - 1) = bits_size (registered st) P (cache_size - 1)" for P
      using False by (intro bits_size_cong) (simp_all add: nth_append)
    then show ?thesis using ok k f(1,6) False by (simp add: cache_ok_def Let_def del: upt_Suc)
  qed
qed

lemma register_all_cache_ok:
  "register_all tys st = Inr st' \<Longrightarrow> cache_ok st \<Longrightarrow> cache_ok st'"
proof (induction tys arbitrary: st)
  case Nil
  then show ?case by simp
next
  case (Cons a tys)
  obtain ty nm where a: "a = (ty, nm)" by (cases a)
  from Cons.prems(1) obtain c st1 where r: "register_component ty nm st = Inr (c, st1)"
      and rest: "register_all tys st1 = Inr st'"
    by (auto simp: a split: sum.splits)
  show ?case using Cons.IH[OF rest] register_component_cache_ok[OF r Cons.prems(2)] by simp
qed

lemma cache_mask_eq: "cache_mask = mask 12"
  by (simp add: cache_mask_def cache_size_def mask_eq_exp_minus_1)

lemma cached_index_bit:
  "c < cache_size \<Longrightarrow> bit (unat (m AND cache_mask AND mask c)) i = (bit (m :: 64 word) i \<and> i < c)"
  using bit_imp_le_length[of m i]
  by (auto simp: cache_mask_eq cache_size_def bit_unsigned_iff bit_and_iff bit_mask_iff)

lemma cached_index_less:
  "unat ((m :: 64 word) AND cache_mask AND mask c) < 2 ^ c"
proof -
  define w where "w = m AND cache_mask"
  have "unat (take_bit c w) < 2 ^ c"
    by (simp add: unsigned_take_bit_eq)
  moreover have "m AND cache_mask AND mask c = take_bit c w"
    by (simp add: w_def take_bit_eq_mask and.assoc)
  ultimately show ?thesis by simp
qed

lemma cached_eq:
  assumes ok: "cache_ok st" and c: "c < cache_size" "c < length (registered st)"
  shows "cached (component_offsets st) m c = Inr (bits_size (registered st) (bit m) c)"
proof -
  let ?k = "min (length (registered st)) (cache_size - 1)"
  let ?idx = "unat (m AND cache_mask AND mask c)"
  have ck: "c \<le> ?k" using c by simp
  have "?idx < 2 ^ c" by (rule cached_index_less)
  also have "\<dots> \<le> 2 ^ ?k" using ck by (rule power_increasing) simp
  finally have idx: "?idx < 2 ^ ?k" .
  have offs: "component_offsets st = map (\<lambda>idx. bits_size (registered st) (bit idx) ?k) [0..<2 ^ ?k]"
    using ok by (simp add: cache_ok_def Let_def)
  have "component_offsets st ! ?idx = bits_size (registered st) (bit ?idx) ?k"
    by (subst offs) (use idx in simp)
  also have "\<dots> = bits_size (registered st) (bit ?idx) c"
    using ck by (rule bits_size_cut) (simp add: cached_index_bit[OF c(1)])
  also have "\<dots> = bits_size (registered st) (bit m) c"
    by (rule bits_size_cong) (simp_all add: cached_index_bit[OF c(1)])
  finally have "component_offsets st ! ?idx = bits_size (registered st) (bit m) c" .
  moreover have "?idx < length (component_offsets st)"
    using idx cache_ok_length[OF ok] by simp
  ultimately show ?thesis by (simp add: cached_def Let_def)
qed

lemma scan_eq:
  "(\<And>i. i < c \<Longrightarrow> bit m i \<Longrightarrow> i < length comps) \<Longrightarrow> scan comps m c = Inr (bits_size comps (bit m) c)"
  by (induction c) auto

section \<open>Set and get\<close>

lemma demo_registry_built:
  "register_all [(position_t, ''position''), (name_t, ''name'')] new_storage = Inr demo_registry"
  by (simp add: register_component_def new_storage_def demo_registry_def position_t_def name_t_def
      bitset_set_def cache_size_def fill.simps Let_def)

lemma cache_ok_demo_registry: "cache_ok demo_registry"
  using register_all_cache_ok[OF demo_registry_built cache_ok_new] .

lemma bits_size_none: "(\<And>i. i < n \<Longrightarrow> \<not> P i) \<Longrightarrow> bits_size comps P n = 0"
  by (induction n) auto

lemma packed_empty: "packed comps empty_elem"
  by (simp add: packed_def empty_elem_def list_all_iff bits_size_none)

lemma store_ok_demo_store: "store_ok demo_store"
  using cache_ok_demo_registry
  by (simp add: store_ok_def demo_store_def packed_empty cache_ok_def)

lemma lookup_Some: "map_of (entities st) k = Some e \<Longrightarrow> lookup st (Some k) = Inr (k, e)"
  by (simp add: lookup_def)

lemma lookup_None: "lookup st None = Inl Undefined_Behaviour"
  by (simp add: lookup_def)

lemma lookup_absent: "map_of (entities st) k = None \<Longrightarrow> lookup st (Some k) = Inl Undefined_Behaviour"
  by (simp add: lookup_def)

lemma find_entity_exists: "exists st en \<Longrightarrow> find_entity st en = Some en"
  by (auto simp: exists_def find_entity_def split: option.splits)

lemma find_entity_absent: "\<not> exists st en \<Longrightarrow> find_entity st en = None"
  by (auto simp: exists_def find_entity_def split: option.splits)

lemma packed_registered: "packed comps e \<Longrightarrow> bit (components e) i \<Longrightarrow> i < length comps"
  using bit_imp_le_length[of "components e" i]
  by (auto simp: packed_def list_all_iff)

lemma store_ok_packed:
  "store_ok st \<Longrightarrow> map_of (entities st) k = Some e \<Longrightarrow> packed (registered st) e"
  by (auto simp: store_ok_def list_all_iff dest: map_of_SomeD)

lemma offset_eq:
  assumes "cache_ok st" "packed (registered st) e" "c < length (registered st)"
  shows "offset st e c = Inr (bits_size (registered st) (bit (components e)) c)"
proof (cases "c < cache_size")
  case True
  then show ?thesis using assms by (simp add: offset_def cached_eq)
next
  case False
  then show ?thesis using assms by (simp add: offset_def scan_eq packed_registered)
qed

lemma bits_size_mono: "c \<le> n \<Longrightarrow> bits_size comps P c \<le> bits_size comps P n"
  by (induction n) (auto simp: le_Suc_eq)

lemma bits_size_slot: "c < n \<Longrightarrow> P c \<Longrightarrow> bits_size comps P c + c_size (comps ! c) \<le> bits_size comps P n"
proof -
  assume "c < n" "P c"
  then have "bits_size comps P (Suc c) \<le> bits_size comps P n"
    by (intro bits_size_mono) simp
  then show ?thesis using \<open>P c\<close> by simp
qed


lemma map_of_store:
  "map_of (map (\<lambda>(k', e'). if k' = k then (k', e) else (k', e')) xs) k'' =
     (if k'' = k then map_option (\<lambda>_. e) (map_of xs k) else map_of xs k'')"
  by (induction xs) auto

lemma store_elem_fields [simp]:
  "registered (store_elem k e st) = registered st"
  "component_offsets (store_elem k e st) = component_offsets st"
  "heap (store_elem k e st) = heap st"
  "next_id (store_elem k e st) = next_id st"
  "flat_mask (store_elem k e st) = flat_mask st"
  "map fst (entities (store_elem k e st)) = map fst (entities st)"
  by (auto simp: store_elem_def)

lemma map_of_store_elem:
  "map_of (entities (store_elem k e st)) k' =
     (if k' = k then map_option (\<lambda>_. e) (map_of (entities st) k) else map_of (entities st) k')"
  by (simp add: store_elem_def map_of_store)

lemma set_store_elem:
  "(k', e') \<in> set (entities (store_elem k e st)) \<Longrightarrow>
   (k' = k \<and> e' = e) \<or> (k', e') \<in> set (entities st)"
  by (auto simp: store_elem_def split: if_splits)

lemma cache_ok_cong:
  "registered st' = registered st \<Longrightarrow> component_offsets st' = component_offsets st \<Longrightarrow>
   cache_ok st' = cache_ok st"
  by (simp add: cache_ok_def)

lemma bit_set_bit_word: "c < 64 \<Longrightarrow> bit (set_bit c (m :: 64 word)) i = (i = c \<or> bit m i)"
  by (auto simp: bit_set_bit_iff)

lemma bits_size_below_set:
  "c < 64 \<Longrightarrow> bits_size comps (bit (set_bit c (m :: 64 word))) c = bits_size comps (bit m) c"
  by (rule bits_size_cong) (simp_all add: bit_set_bit_word)

lemma bits_size_add:
  "c < n \<Longrightarrow> \<not> P c \<Longrightarrow> (\<And>i. Q i = (i = c \<or> P i)) \<Longrightarrow>
   bits_size comps Q n = bits_size comps P n + c_size (comps ! c)"
proof (induction n)
  case 0
  then show ?case by simp
next
  case (Suc n)
  show ?case
  proof (cases "c = n")
    case True
    have "bits_size comps Q n = bits_size comps P n"
      by (rule bits_size_cong) (use Suc.prems(3) True in auto)
    moreover have "Q n" using Suc.prems(3)[of n] True by simp
    ultimately show ?thesis using True Suc.prems(2) by simp
  next
    case False
    then have "c < n" using Suc.prems(1) by simp
    then have "bits_size comps Q n = bits_size comps P n + c_size (comps ! c)"
      using Suc.IH Suc.prems(2,3) by blast
    moreover have "Q n = P n" using Suc.prems(3)[of n] False by simp
    ultimately show ?thesis by simp
  qed
qed

lemma length_place: "off + length cs \<le> length xs \<Longrightarrow> length (place off cs xs) = length xs"
  by (simp add: place_def)

lemma length_insert_at: "off \<le> length xs \<Longrightarrow> length (insert_at off cs xs) = length xs + length cs"
  by (simp add: insert_at_def)

lemma slot_place: "off + length cs \<le> length xs \<Longrightarrow> slot off (length cs) (place off cs xs) = cs"
  by (simp add: slot_def place_def)

lemma unraw_map_Raw: "unraw (map Raw v) = Some v"
  by (induction v) auto

lemma read_flat_place:
  "off + length v \<le> length xs \<Longrightarrow> read_flat off (length v) (place off (map Raw v) xs) = Inr v"
  using slot_place[of off "map Raw v" xs]
  by (simp add: read_flat_def length_place unraw_map_Raw)

lemma read_held_place:
  "off + n \<le> length xs \<Longrightarrow> 0 < n \<Longrightarrow>
   read_held (hp @ [Some v]) off n (place off (replicate n (Held (length hp))) xs) = Inr v"
  using slot_place[of off "replicate n (Held (length hp))" xs]
  by (cases n) (simp_all add: read_held_def held_handle_def)

lemma length_construct:
  "valid_value ty v \<Longrightarrow> length (fst (construct ty v hp)) = size_of ty"
  by (simp add: construct_def valid_value_def)

text \<open>What a successful \<open>set\<close> has done.\<close>

lemma set_iter_Inr:
  assumes "set_iter ty en c v st = Inr st'"
  obtains k e off e1 where
    "en = Some k" "map_of (entities st) k = Some e" "c < length (registered st)" "c < 64"
    "offset st e c = Inr off"
    "e1 = (if bit (components e) c then e else grow (registered st ! c) c off e)"
    "off + size_of ty \<le> length (data e1)"
    "st' = store_elem k
        (e1\<lparr>data := place off (fst (construct ty v (heap st))) (data e1),
            dirty := set_bit c (dirty e1)\<rparr>)
        (st\<lparr>heap := snd (construct ty v (heap st))\<rparr>)"
  using assms
  by (auto simp: set_iter_def lookup_def bitset_test_def Let_def
      split: if_splits sum.splits option.splits prod.splits)

lemma grow_fields [simp]:
  "components (grow cp c off e) = set_bit c (components e)"
  "dirty (grow cp c off e) = dirty e"
  by (simp_all add: grow_def)

lemma length_grow:
  "off \<le> length (data e) \<Longrightarrow> length (data (grow cp c off e)) = length (data e) + c_size cp"
  by (simp add: grow_def length_insert_at)

lemma grow_room: "off + c_size cp \<le> length (data (grow cp c off e))"
  by (simp add: grow_def insert_at_def)

lemma packed_grow:
  assumes p: "packed comps e" and c: "c < length comps" "c < 64" and a: "\<not> bit (components e) c"
  shows "packed comps (grow (comps ! c) c (bits_size comps (bit (components e)) c) e)"
proof -
  let ?m = "components e"
  have le: "bits_size comps (bit ?m) c \<le> length (data e)"
    using p c by (simp add: packed_def bits_size_mono)
  have "bits_size comps (bit (set_bit c ?m)) (length comps) =
        bits_size comps (bit ?m) (length comps) + c_size (comps ! c)"
    using c a by (intro bits_size_add) (simp_all add: bit_set_bit_word)
  moreover have "bit (set_bit c ?m) i \<Longrightarrow> i < length comps" for i
    using packed_registered[OF p, of i] c by (auto simp: bit_set_bit_word)
  ultimately show ?thesis
    using p le by (simp add: packed_def list_all_iff length_grow)
qed

lemma set_iter_success:
  assumes ok: "store_ok st" and e: "map_of (entities st) k = Some e"
    and c: "c < length (registered st)" "c < 64"
    and sz: "size_of ty = c_size (registered st ! c)"
  defines "off \<equiv> bits_size (registered st) (bit (components e)) c"
  defines "e1 \<equiv> (if bit (components e) c then e else grow (registered st ! c) c off e)"
  shows "set_iter ty (Some k) c v st =
     Inr (store_elem k
        (e1\<lparr>data := place off (fst (construct ty v (heap st))) (data e1),
            dirty := set_bit c (dirty e1)\<rparr>)
        (st\<lparr>heap := snd (construct ty v (heap st))\<rparr>))"
proof -
  have p: "packed (registered st) e" using ok e by (rule store_ok_packed)
  have o: "offset st e c = Inr off"
    using ok p c by (simp add: off_def offset_eq store_ok_def)
  have room: "off + size_of ty \<le> length (data e1)"
  proof (cases "bit (components e) c")
    case True
    then show ?thesis
      using bits_size_slot[of c "length (registered st)" "bit (components e)" "registered st"] p c sz
      by (simp add: e1_def off_def packed_def)
  next
    case False
    then show ?thesis using grow_room[of off "registered st ! c" c e] sz by (simp add: e1_def)
  qed
  show ?thesis
    using o room c
    by (cases "bit (components e) c")
       (simp_all add: set_iter_def lookup_Some[OF e] bitset_test_def e1_def Let_def split: prod.splits)
qed

lemma packed_after_set:
  assumes p: "packed comps e" and c: "c < length comps" "c < 64"
    and e1: "e1 = (if bit (components e) c then e else grow (comps ! c) c (bits_size comps (bit (components e)) c) e)"
    and room: "off + length cells \<le> length (data e1)"
  shows "packed comps (e1\<lparr>data := place off cells (data e1), dirty := d\<rparr>)"
proof -
  have "packed comps e1" using p c packed_grow[OF p c] by (simp add: e1)
  then show ?thesis using room by (simp add: packed_def length_place)
qed

lemma set_iter_store_ok:
  assumes ok: "store_ok st" and s: "set_iter ty en c v st = Inr st'" and v: "valid_value ty v"
  shows "store_ok st'"
proof -
  from s obtain k e off e1 where
    en: "en = Some k" and e: "map_of (entities st) k = Some e" and c: "c < length (registered st)" "c < 64"
    and o: "offset st e c = Inr off"
    and e1: "e1 = (if bit (components e) c then e else grow (registered st ! c) c off e)"
    and room: "off + size_of ty \<le> length (data e1)"
    and st': "st' = store_elem k
        (e1\<lparr>data := place off (fst (construct ty v (heap st))) (data e1),
            dirty := set_bit c (dirty e1)\<rparr>)
        (st\<lparr>heap := snd (construct ty v (heap st))\<rparr>)"
    by (rule set_iter_Inr)
  have p: "packed (registered st) e" using ok e by (rule store_ok_packed)
  have off: "off = bits_size (registered st) (bit (components e)) c"
    using o offset_eq[of st e c] ok p c by (simp add: store_ok_def)
  have pe: "packed (registered st)
      (e1\<lparr>data := place off (fst (construct ty v (heap st))) (data e1), dirty := set_bit c (dirty e1)\<rparr>)"
    using p c
  proof (rule packed_after_set)
    show "e1 = (if bit (components e) c then e
       else grow (registered st ! c) c (bits_size (registered st) (bit (components e)) c) e)"
      using e1 off by simp
    show "off + length (fst (construct ty v (heap st))) \<le> length (data e1)"
      using room v by (simp add: length_construct)
  qed
  have "cache_ok st'" using ok by (simp add: st' store_ok_def cache_ok_def)
  moreover have "distinct (map fst (entities st'))" using ok by (simp add: st' store_ok_def)
  moreover have "packed (registered st') e'" if "(k', e') \<in> set (entities st')" for k' e'
  proof -
    from that have "(k' = k \<and> e' = e1\<lparr>data := place off (fst (construct ty v (heap st))) (data e1),
            dirty := set_bit c (dirty e1)\<rparr>) \<or> (k', e') \<in> set (entities st)"
      unfolding st' by (auto dest!: set_store_elem)
    then show ?thesis using pe ok by (auto simp: st' store_ok_def list_all_iff)
  qed
  ultimately show ?thesis by (auto simp: store_ok_def list_all_iff)
qed


lemma get_elem_after_set:
  assumes c: "cache_ok st" "c < length (registered st)" "c < 64"
    and p: "packed (registered st) e2"
    and off: "off = bits_size (registered st) (bit (components e2)) c"
    and d: "data e2 = place off (fst (construct ty v (heap st0))) xs"
    and room: "off + size_of ty \<le> length xs"
    and hp: "heap st = snd (construct ty v (heap st0))"
    and v: "valid_value ty v" and pos: "0 < size_of ty"
  shows "get_elem ty e2 c st = Inr v"
proof -
  have o: "offset st e2 c = Inr off" using c p off by (simp add: offset_eq)
  show ?thesis
  proof (cases "is_flat ty")
    case True
    then have "length v = size_of ty" using v by (simp add: valid_value_def)
    then show ?thesis
      using True o d room read_flat_place[of off v xs]
      by (simp add: get_elem_def construct_def)
  next
    case False
    then show ?thesis
      using o d room pos hp read_held_place[of off "size_of ty" xs "heap st0" v]
      by (simp add: get_elem_def construct_def)
  qed
qed

text \<open>
  Claim C1 (round trip).  In a storage that satisfies the packing invariant, for an entity
  of the table, a registered component id \<open>c\<close> (an id of the presence mask, below 64) and a
  value of the type \<open>c\<close> was registered with: \<open>set(e, c, v)\<close> returns, and \<open>get(e, c)\<close> in
  the resulting storage returns \<open>v\<close>.
\<close>

theorem set_get_round_trip:
  assumes ok: "store_ok st" and ex: "exists st en"
    and c: "c < length (registered st)" "c < 64"
    and ty: "type_matches (registered st ! c) ty" and v: "valid_value ty v"
  shows "\<exists>st'. set_entity ty en c v st = Inr st' \<and> get_entity ty en c st' = Inr v"
proof -
  from ex obtain e where e: "map_of (entities st) en = Some e"
    by (auto simp: exists_def)
  define off where "off = bits_size (registered st) (bit (components e)) c"
  define e1 where "e1 = (if bit (components e) c then e else grow (registered st ! c) c off e)"
  define e2 where "e2 = e1\<lparr>data := place off (fst (construct ty v (heap st))) (data e1),
            dirty := set_bit c (dirty e1)\<rparr>"
  define st' where "st' = store_elem en e2 (st\<lparr>heap := snd (construct ty v (heap st))\<rparr>)"
  have sz: "size_of ty = c_size (registered st ! c)" "0 < size_of ty"
    using ty by (simp_all add: type_matches_def)
  have s: "set_iter ty (Some en) c v st = Inr st'"
    using set_iter_success[OF ok e c sz(1), of v]
    by (simp add: st'_def e2_def e1_def off_def)
  have ok': "store_ok st'" using ok s v by (rule set_iter_store_ok)
  have e': "map_of (entities st') en = Some e2"
    using e by (simp add: st'_def map_of_store_elem)
  have bitc: "bit (components e2) c"
    using c by (simp add: e2_def e1_def bit_set_bit_word)
  have below: "bits_size (registered st) (bit (components e2)) c = off"
    using c by (simp add: e2_def e1_def off_def bits_size_below_set)
  from s obtain k0 e0 off0 e10 where
    "Some en = Some k0" "map_of (entities st) k0 = Some e0" "offset st e0 c = Inr off0"
    "e10 = (if bit (components e0) c then e0 else grow (registered st ! c) c off0 e0)"
    "off0 + size_of ty \<le> length (data e10)"
    by (rule set_iter_Inr)
  moreover have "offset st e c = Inr off"
    using ok store_ok_packed[OF ok e] c by (simp add: off_def offset_eq store_ok_def)
  ultimately have room: "off + size_of ty \<le> length (data e1)"
    using e by (auto simp: e1_def split: if_splits)
  have "get_elem ty e2 c st' = Inr v"
  proof (rule get_elem_after_set)
    show "cache_ok st'" using ok' by (simp add: store_ok_def)
    show "c < length (registered st')" using c by (simp add: st'_def)
    show "c < 64" by fact
    show "packed (registered st') e2" using ok' e' by (rule store_ok_packed)
    show "off = bits_size (registered st') (bit (components e2)) c"
      using below by (simp add: st'_def)
    show "data e2 = place off (fst (construct ty v (heap st))) (data e1)"
      by (simp add: e2_def)
    show "off + size_of ty \<le> length (data e1)" by fact
    show "heap st' = snd (construct ty v (heap st))" by (simp add: st'_def)
    show "valid_value ty v" by fact
    show "0 < size_of ty" by fact
  qed
  then have "get_iter ty (Some en) c st' = Inr v"
    using bitc c by (simp add: get_iter_def lookup_Some[OF e'] bitset_test_def)
  moreover have "find_entity st' en = Some en" using e' by (simp add: find_entity_def)
  moreover have "find_entity st en = Some en" using e by (simp add: find_entity_def)
  ultimately show ?thesis using s by (auto simp: set_entity_def get_entity_def)
qed

lemma demo_store_facts:
  "exists demo_store 0" "registered demo_store = registered demo_registry"
  "length (registered demo_registry) = 2"
  "registered demo_registry ! 0 = \<lparr>c_name = ''position'', c_size = 8, c_flat = True\<rparr>"
  "registered demo_registry ! Suc 0 = \<lparr>c_name = ''name'', c_size = 32, c_flat = False\<rparr>"
  by (simp_all add: exists_def demo_store_def demo_registry_def)

theorem set_get_round_trip_witness:
  "store_ok demo_store \<and> exists demo_store 0 \<and> 1 < length (registered demo_store) \<and> (1::nat) < 64 \<and>
   type_matches (registered demo_store ! 1) name_t \<and> valid_value name_t [104, 101, 114, 111] \<and>
   (\<exists>st'. set_entity name_t 0 1 [104, 101, 114, 111] demo_store = Inr st' \<and>
          get_entity name_t 0 1 st' = Inr [104, 101, 114, 111])"
proof -
  have h: "store_ok demo_store" "exists demo_store 0" "1 < length (registered demo_store)" "(1::nat) < 64"
    "type_matches (registered demo_store ! 1) name_t" "valid_value name_t [104, 101, 114, 111]"
    by (simp_all add: store_ok_demo_store demo_store_facts type_matches_def valid_value_def name_t_def)
  show ?thesis using h set_get_round_trip[OF h] by simp
qed

text \<open>
  Claim C10 (absent entity).  For an entity that is not in the table, the entity
  overloads of \<open>get\<close> and \<open>set\<close> dereference the \<open>end()\<close> iterator that \<open>find\<close> returned:
  the result is undefined behaviour (for \<open>set\<close> after the assertion on the component id),
  never a checked error about the entity.
\<close>

theorem absent_entity_unchecked:
  assumes "\<not> exists st en"
  shows "get_entity ty en c st = Inl Undefined_Behaviour \<and>
         set_entity ty en c v st =
           (if c < length (registered st) then Inl Undefined_Behaviour else Inl Assertion_Failed)"
  using assms
  by (simp add: get_entity_def set_entity_def find_entity_absent get_iter_def set_iter_def
      lookup_None Let_def)

theorem absent_entity_unchecked_witness:
  "\<not> exists demo_store 5 \<and>
   get_entity position_t 5 0 demo_store = Inl Undefined_Behaviour \<and>
   set_entity position_t 5 0 [1, 0, 0, 0, 2, 0, 0, 0] demo_store = Inl Undefined_Behaviour"
proof -
  have h: "\<not> exists demo_store 5"
    by (simp add: exists_def demo_store_def demo_registry_def)
  show ?thesis
    using h absent_entity_unchecked[OF h, of position_t 0 "[1, 0, 0, 0, 2, 0, 0, 0]"]
    by (simp add: demo_store_facts)
qed

section \<open>Offset agreement and the registry\<close>

lemma scan_cases:
  "scan comps m c =
     (if \<forall>i<c. bit m i \<longrightarrow> i < length comps then Inr (bits_size comps (bit m) c)
      else Inl Undefined_Behaviour)"
proof (induction c)
  case 0
  then show ?case by simp
next
  case (Suc c)
  show ?case
  proof (cases "\<forall>i<c. bit m i \<longrightarrow> i < length comps")
    case True
    then show ?thesis using Suc by (auto simp: less_Suc_eq)
  next
    case False
    then have "\<not> (\<forall>i<Suc c. bit m i \<longrightarrow> i < length comps)" by (auto simp: less_Suc_eq)
    then show ?thesis using Suc False by simp
  qed
qed

lemma bit_nat_above: "idx < 2 ^ k \<Longrightarrow> k \<le> i \<Longrightarrow> \<not> bit (idx :: nat) i"
proof -
  assume a: "idx < 2 ^ k" "k \<le> i"
  have "(2 :: nat) ^ k \<le> 2 ^ i" using a(2) by (rule power_increasing) simp
  with a(1) have "idx < 2 ^ i" by (rule less_le_trans)
  then show ?thesis by (rule bit_nat_low)
qed

lemma nat_less_exp_bits: "(\<And>i. bit (idx :: nat) i \<Longrightarrow> i < k) \<Longrightarrow> idx < 2 ^ k"
proof -
  assume b: "\<And>i. bit idx i \<Longrightarrow> i < k"
  have "take_bit k idx = idx"
    by (rule bit_eqI) (auto simp: bit_take_bit_iff dest: b)
  then show ?thesis by (simp add: take_bit_nat_eq_self_iff)
qed

lemma cached_cases:
  assumes ok: "cache_ok st" and c: "c < cache_size"
  shows "cached (component_offsets st) m c = scan (registered st) m c"
proof -
  let ?n = "length (registered st)"
  let ?k = "min ?n (cache_size - 1)"
  let ?idx = "unat (m AND cache_mask AND mask c)"
  have len: "length (component_offsets st) = 2 ^ ?k" using ok by (rule cache_ok_length)
  have offs: "component_offsets st = map (\<lambda>idx. bits_size (registered st) (bit idx) ?k) [0..<2 ^ ?k]"
    using ok by (simp add: cache_ok_def Let_def)
  have bits: "bit ?idx i = (bit m i \<and> i < c)" for i using c by (rule cached_index_bit)
  show ?thesis
  proof (cases "\<forall>i<c. bit m i \<longrightarrow> i < ?n")
    case True
    have "i < ?k" if "bit ?idx i" for i
    proof -
      have "bit m i" "i < c" using that bits by simp_all
      then have "i < ?n" using True by simp
      then show ?thesis using \<open>i < c\<close> c by simp
    qed
    then have idx: "?idx < 2 ^ ?k" by (rule nat_less_exp_bits)
    have "component_offsets st ! ?idx = bits_size (registered st) (bit ?idx) ?k"
      by (subst offs) (use idx in simp)
    also have "\<dots> = bits_size (registered st) (bit m) c"
    proof (cases "c \<le> ?k")
      case le: True
      have "bits_size (registered st) (bit ?idx) ?k = bits_size (registered st) (bit ?idx) c"
        using le by (rule bits_size_cut) (simp add: bits)
      also have "\<dots> = bits_size (registered st) (bit m) c"
        by (rule bits_size_cong) (simp_all add: bits)
      finally show ?thesis .
    next
      case gt: False
      then have kc: "?k \<le> c" by arith
      have "bits_size (registered st) (bit m) c = bits_size (registered st) (bit m) ?k"
      proof (rule bits_size_cut[OF kc])
        fix i assume i: "?k \<le> i" "i < c"
        have "\<not> bit ?idx i" using idx i(1) by (rule bit_nat_above)
        then show "\<not> bit m i" using bits i(2) by simp
      qed
      moreover have "bits_size (registered st) (bit ?idx) ?k = bits_size (registered st) (bit m) ?k"
      proof (rule bits_size_cong)
        fix i assume "i < ?k"
        then have "i < c" using kc by (rule less_le_trans)
        then show "bit ?idx i = bit m i" by (simp only: bits simp_thms)
      qed (rule refl)
      ultimately show ?thesis by (simp only:)
    qed
    finally have v: "component_offsets st ! ?idx = bits_size (registered st) (bit m) c" .
    have "?idx < length (component_offsets st)" using idx unfolding len .
    then have "cached (component_offsets st) m c = Inr (component_offsets st ! ?idx)"
      by (simp only: cached_def Let_def if_True)
    moreover have "scan (registered st) m c = Inr (bits_size (registered st) (bit m) c)"
      by (subst scan_cases) (rule if_P[OF True])
    ultimately show ?thesis by (simp only: v)
  next
    case False
    then obtain i where i: "i < c" "bit m i" "\<not> i < ?n" by auto
    have "\<not> ?idx < 2 ^ ?k"
    proof
      assume "?idx < 2 ^ ?k"
      moreover have "?k \<le> i" using i(3) by simp
      ultimately have "\<not> bit ?idx i" by (rule bit_nat_above)
      then show False using bits i by simp
    qed
    then have "\<not> ?idx < length (component_offsets st)" unfolding len .
    then have "cached (component_offsets st) m c = Inl Undefined_Behaviour"
      by (simp only: cached_def Let_def if_False)
    moreover have "scan (registered st) m c = Inl Undefined_Behaviour"
      by (subst scan_cases) (rule if_not_P[OF False])
    ultimately show ?thesis by (simp only:)
  qed
qed

text \<open>
  Claim C4 (offset agreement).  In a storage built by any sequence of registrations, for
  every presence mask and every component id below 12, the cache lookup and the linear
  scan return the same result, and \<open>offset\<close> returns it; for a registered id it is the sum
  of the sizes of the present components with a smaller id.
\<close>

theorem offset_cache_agrees_with_scan:
  assumes "register_all tys new_storage = Inr st" and "c < cache_size"
  shows "cached (component_offsets st) m c = scan (registered st) m c \<and>
         offset st e c = scan (registered st) (components e) c \<and>
         (c < length (registered st) \<longrightarrow>
            scan (registered st) m c = Inr (bits_size (registered st) (bit m) c))"
proof -
  have ok: "cache_ok st" using assms(1) cache_ok_new by (rule register_all_cache_ok)
  have "cached (component_offsets st) m c = scan (registered st) m c" for m
    using ok assms(2) by (rule cached_cases)
  moreover have "scan (registered st) m c = Inr (bits_size (registered st) (bit m) c)"
    if "c < length (registered st)"
    using that by (intro scan_eq) simp
  ultimately show ?thesis using assms(2) by (simp add: offset_def)
qed

theorem offset_cache_agrees_with_scan_witness:
  "register_all [(position_t, ''position''), (name_t, ''name'')] new_storage = Inr demo_registry \<and>
   1 < cache_size \<and> 1 < length (registered demo_registry) \<and>
   cached (component_offsets demo_registry) 1 1 = scan (registered demo_registry) 1 1 \<and>
   scan (registered demo_registry) 1 1 = Inr 8"
proof -
  have h1: "register_all [(position_t, ''position''), (name_t, ''name'')] new_storage = Inr demo_registry"
    by (rule demo_registry_built)
  have h2: "1 < cache_size" by (simp add: cache_size_def)
  have h3: "1 < length (registered demo_registry)" by (simp add: demo_store_facts)
  have v: "bits_size (registered demo_registry) (bit (1 :: 64 word)) 1 = 8"
    by (simp add: demo_store_facts)
  from offset_cache_agrees_with_scan[OF h1 h2, of 1 empty_elem] h3 v
  have "cached (component_offsets demo_registry) 1 1 = scan (registered demo_registry) 1 1 \<and>
        scan (registered demo_registry) 1 1 = Inr 8"
    by (simp only:)
  then show ?thesis using h1 h2 h3 by blast
qed

lemma register_all_flat:
  "\<forall>t \<in> set tys. is_flat (fst t) \<Longrightarrow>
   \<exists>st'. register_all tys st = Inr st' \<and>
         length (registered st') = length (registered st) + length tys"
proof (induction tys arbitrary: st)
  case Nil
  then show ?case by simp
next
  case (Cons a tys)
  obtain ty nm where a: "a = (ty, nm)" by (cases a)
  have f: "is_flat ty" using Cons.prems a by simp
  obtain c st1 where r: "register_component ty nm st = Inr (c, st1)"
    using f by (simp add: register_component_def Let_def)
  have "length (registered st1) = Suc (length (registered st))"
    using register_component_fields(1)[OF r] by simp
  moreover obtain st' where "register_all tys st1 = Inr st'"
      "length (registered st') = length (registered st1) + length tys"
    using Cons.IH[of st1] Cons.prems by auto
  ultimately show ?case using r a by auto
qed

text \<open>
  Claim C8, the twelfth component: after eleven registrations the cache has \<open>2 ^ 11\<close>
  entries, and registering the component with id 11 leaves it as it is.
\<close>

theorem twelfth_component_not_cached:
  "\<exists>st st'. register_all (replicate 11 (byte_t, ''c'')) new_storage = Inr st \<and>
            register_component byte_t ''c'' st = Inr (11, st') \<and>
            component_offsets st' = component_offsets st \<and>
            length (component_offsets st') = 2048"
proof -
  obtain st where st: "register_all (replicate 11 (byte_t, ''c'')) new_storage = Inr st"
      and n: "length (registered st) = 11"
    using register_all_flat[of "replicate 11 (byte_t, ''c'')" new_storage]
    by (auto simp: byte_t_def new_storage_def)
  have "cache_ok st" using st cache_ok_new by (rule register_all_cache_ok)
  then have len: "length (component_offsets st) = 2048"
    using n by (simp add: cache_ok_length cache_size_def)
  obtain c st' where r: "register_component byte_t ''c'' st = Inr (c, st')"
    by (simp add: register_component_def Let_def byte_t_def)
  have "c = 11" "component_offsets st' = component_offsets st"
    using register_component_fields(5,6)[OF r] n by (simp_all add: cache_size_def)
  then show ?thesis using st r len by auto
qed

section \<open>Presence and readability\<close>

lemma bit_3_word: "bit (3 :: 64 word) i = (i < 2)"
proof -
  have "(3 :: 64 word) = mask 2" by (simp add: mask_eq_exp_minus_1)
  then have "bit (3 :: 64 word) i = bit (mask 2 :: 64 word) i" by (simp only:)
  also have "\<dots> = (i < 2)" by (auto simp: bit_mask_iff)
  finally show ?thesis .
qed

lemma held_handle_replicate:
  "slot off n xs = replicate n (Held h) \<Longrightarrow> 0 < n \<Longrightarrow> held_handle off n xs = Inr h"
  by (cases n) (simp_all add: held_handle_def)

lemma demo_hero_facts:
  "registered demo_hero = registered demo_registry"
  "component_offsets demo_hero = component_offsets demo_registry"
  "heap demo_hero = [Some hero]"
  "map_of (entities demo_hero) 0 =
     Some \<lparr>components = 3, dirty = 3, data = map Raw [1, 0, 0, 0, 2, 0, 0, 0] @ replicate 32 (Held 0)\<rparr>"
  "exists demo_hero 0"
  by (simp_all add: demo_hero_def exists_def)

lemma store_ok_demo_hero: "store_ok demo_hero"
proof -
  have "cache_ok demo_hero"
    using cache_ok_demo_registry by (simp add: cache_ok_def demo_hero_facts)
  moreover have "packed (registered demo_registry)
     \<lparr>components = 3, dirty = 3, data = map Raw [1, 0, 0, 0, 2, 0, 0, 0] @ replicate 32 (Held 0)\<rparr>"
    by (simp add: packed_def list_all_iff bit_3_word demo_store_facts eval_nat_numeral)
  ultimately show ?thesis
    by (simp add: store_ok_def demo_hero_def)
qed

lemma get_iter_absent:
  "map_of (entities st) k = Some e \<Longrightarrow> c < 64 \<Longrightarrow> \<not> bit (components e) c \<Longrightarrow>
   get_iter ty (Some k) c st = Inl (Logic_Error ''entity does not have component'')"
  by (simp add: get_iter_def lookup_Some bitset_test_def)

lemma get_iter_present:
  "map_of (entities st) k = Some e \<Longrightarrow> c < 64 \<Longrightarrow> bit (components e) c \<Longrightarrow>
   get_iter ty (Some k) c st = get_elem ty e c st"
  by (simp add: get_iter_def lookup_Some bitset_test_def)

lemma get_elem_valid:
  assumes ok: "cache_ok st" "packed (registered st) e" and b: "bit (components e) c"
    and ty: "type_matches (registered st ! c) ty" and sv: "slot_valid st e c"
  shows "\<exists>v. get_elem ty e c st = Inr v"
proof -
  let ?off = "bits_size (registered st) (bit (components e)) c"
  have c: "c < length (registered st)" using ok(2) b by (rule packed_registered)
  have o: "offset st e c = Inr ?off" using ok c by (rule offset_eq)
  have room: "?off + size_of ty \<le> length (data e)"
    using bits_size_slot[OF c, of "bit (components e)" "registered st"] b ok(2) ty
    by (simp add: packed_def type_matches_def)
  show ?thesis
  proof (cases "is_flat ty")
    case True
    then show ?thesis
      using o room sv ty
      by (auto simp: get_elem_def read_flat_def slot_valid_def type_matches_def Let_def)
  next
    case False
    then show ?thesis
      using o sv ty
      by (auto simp: get_elem_def read_held_def slot_valid_def type_matches_def Let_def
          split: sum.splits)
  qed
qed

lemma scan_error: "scan comps m c = Inl err \<Longrightarrow> err = Undefined_Behaviour"
  by (induction c arbitrary: err) (auto split: sum.splits if_splits)

lemma offset_error: "offset st e c = Inl err \<Longrightarrow> err = Undefined_Behaviour"
  by (auto simp: offset_def cached_def Let_def split: if_splits dest: scan_error)

lemma get_elem_error: "get_elem ty e c st = Inl err \<Longrightarrow> err = Undefined_Behaviour"
  by (auto simp: get_elem_def read_flat_def read_held_def held_handle_def
      split: sum.splits if_splits option.splits list.splits cell.splits dest: offset_error)

text \<open>
  Claim C2 (presence and readability).  For an entity of the table and a component id
  \<open>c\<close> of the presence mask: \<open>get(e, c)\<close> throws the logic error "entity does not have
  component" exactly if presence bit \<open>c\<close> is unset.  If the record satisfies the packing
  invariant and the slot of a present component holds a constructed value of the type
  that \<open>get\<close> is called with, \<open>get(e, c)\<close> returns a value exactly if the bit is set.
\<close>

theorem get_succeeds_iff_present:
  assumes e: "map_of (entities st) en = Some e" and c: "c < 64"
  shows "(get_entity ty en c st = Inl (Logic_Error ''entity does not have component'')
            \<longleftrightarrow> \<not> bit (components e) c) \<and>
         (store_ok st \<and>
          (bit (components e) c \<longrightarrow> slot_valid st e c \<and> type_matches (registered st ! c) ty) \<longrightarrow>
            ((\<exists>v. get_entity ty en c st = Inr v) \<longleftrightarrow> bit (components e) c))"
proof -
  have f: "find_entity st en = Some en" using e by (simp add: find_entity_def)
  show ?thesis
  proof (cases "bit (components e) c")
    case True
    have g: "get_entity ty en c st = get_elem ty e c st"
      using f get_iter_present[OF e c True] by (simp add: get_entity_def)
    have "get_elem ty e c st \<noteq> Inl (Logic_Error ''entity does not have component'')"
      using get_elem_error[of ty e c st] by auto
    moreover have "\<exists>v. get_elem ty e c st = Inr v"
      if "store_ok st" "slot_valid st e c \<and> type_matches (registered st ! c) ty"
      using that store_ok_packed[OF that(1) e] True
      by (intro get_elem_valid) (simp_all add: store_ok_def)
    ultimately show ?thesis using True g by auto
  next
    case False
    then show ?thesis
      using f get_iter_absent[OF e c False] by (simp add: get_entity_def)
  qed
qed

theorem get_succeeds_iff_present_witness:
  "map_of (entities demo_hero) 0 =
     Some \<lparr>components = 3, dirty = 3, data = map Raw [1, 0, 0, 0, 2, 0, 0, 0] @ replicate 32 (Held 0)\<rparr> \<and>
   (1 :: nat) < 64 \<and> store_ok demo_hero \<and>
   slot_valid demo_hero
     \<lparr>components = 3, dirty = 3, data = map Raw [1, 0, 0, 0, 2, 0, 0, 0] @ replicate 32 (Held 0)\<rparr> 1 \<and>
   type_matches (registered demo_hero ! 1) name_t \<and>
   (\<exists>v. get_entity name_t 0 1 demo_hero = Inr v) \<and>
   get_entity name_t 0 1 demo_hero \<noteq> Inl (Logic_Error ''entity does not have component'')"
proof -
  let ?e = "\<lparr>components = 3, dirty = 3, data = map Raw [1, 0, 0, 0, 2, 0, 0, 0] @ replicate 32 (Held 0)\<rparr>"
  have h1: "map_of (entities demo_hero) 0 = Some ?e" by (rule demo_hero_facts)
  have h2: "(1 :: nat) < 64" by simp
  have h3: "store_ok demo_hero" by (rule store_ok_demo_hero)
  have b: "bit (components ?e) 1" by (simp add: bit_3_word)
  have "slot 8 32 (data ?e) = replicate 32 (Held 0)" by (simp add: slot_def)
  then have hh: "held_handle 8 32 (data ?e) = Inr 0" by (simp add: held_handle_replicate)
  have h4: "slot_valid demo_hero ?e 1 \<and> type_matches (registered demo_hero ! 1) name_t"
    using hh
    by (simp add: slot_valid_def demo_hero_facts demo_store_facts bit_3_word
        type_matches_def name_t_def)
  from get_succeeds_iff_present[OF h1 h2, of name_t] h3 h4 b
  have "(\<exists>v. get_entity name_t 0 1 demo_hero = Inr v) \<and>
        get_entity name_t 0 1 demo_hero \<noteq> Inl (Logic_Error ''entity does not have component'')"
    by simp
  then show ?thesis using h1 h2 h3 h4 by blast
qed

section \<open>The packing invariant\<close>

lemma store_okI:
  assumes "cache_ok st" "distinct (map fst (entities st))"
    "\<And>k e. (k, e) \<in> set (entities st) \<Longrightarrow> packed (registered st) e"
  shows "store_ok st"
  using assms by (auto simp: store_ok_def list_all_iff)

lemma store_okD:
  assumes "store_ok st"
  shows "cache_ok st" "distinct (map fst (entities st))"
    "\<And>k e. (k, e) \<in> set (entities st) \<Longrightarrow> packed (registered st) e"
  using assms by (auto simp: store_ok_def list_all_iff)

lemma store_ok_store_elem:
  assumes ok: "store_ok st" and p: "packed (registered st) e"
  shows "store_ok (store_elem k e st)"
proof (rule store_okI)
  show "cache_ok (store_elem k e st)" using store_okD(1)[OF ok] by (simp add: cache_ok_def)
  show "distinct (map fst (entities (store_elem k e st)))" using store_okD(2)[OF ok] by simp
  fix k' e' assume "(k', e') \<in> set (entities (store_elem k e st))"
  then show "packed (registered (store_elem k e st)) e'"
    using p store_okD(3)[OF ok] by (auto dest!: set_store_elem)
qed

lemma store_ok_cong:
  "registered st' = registered st \<Longrightarrow> component_offsets st' = component_offsets st \<Longrightarrow>
   entities st' = entities st \<Longrightarrow> store_ok st' = store_ok st"
  by (simp add: store_ok_def cache_ok_def)

lemma store_ok_heap [simp]: "store_ok (st\<lparr>heap := hp\<rparr>) = store_ok st"
  by (simp add: store_ok_def cache_ok_def)

lemma store_ok_next_id [simp]: "store_ok (st\<lparr>next_id := n\<rparr>) = store_ok st"
  by (simp add: store_ok_def cache_ok_def)

lemma lookup_Inr: "lookup st en = Inr (k, e) \<Longrightarrow> en = Some k \<and> map_of (entities st) k = Some e"
  by (auto simp: lookup_def split: option.splits)

lemma lookup_mem: "lookup st en = Inr (k, e) \<Longrightarrow> (k, e) \<in> set (entities st)"
  by (auto dest!: lookup_Inr map_of_SomeD)

lemma packed_data:
  "packed comps e \<Longrightarrow> components e' = components e \<Longrightarrow> length (data e') = length (data e) \<Longrightarrow>
   packed comps e'"
  by (simp add: packed_def)

text \<open>Registration\<close>

lemma packed_append:
  assumes "packed comps e"
  shows "packed (comps @ [cp]) e"
proof -
  have nb: "\<not> bit (components e) (length comps)"
    using packed_registered[OF assms, of "length comps"] by auto
  have "bits_size (comps @ [cp]) (bit (components e)) (length comps) =
        bits_size comps (bit (components e)) (length comps)"
    by (rule bits_size_cong) (simp_all add: nth_append)
  then show ?thesis using assms nb by (auto simp: packed_def list_all_iff)
qed

lemma register_component_store_ok:
  assumes r: "register_component ty nm st = Inr (c, st')" and ok: "store_ok st"
  shows "store_ok st'"
proof (rule store_okI)
  note f = register_component_fields[OF r]
  show "cache_ok st'" using r store_okD(1)[OF ok] by (rule register_component_cache_ok)
  show "distinct (map fst (entities st'))" using store_okD(2)[OF ok] f(2) by simp
  fix k e assume "(k, e) \<in> set (entities st')"
  then show "packed (registered st') e"
    using store_okD(3)[OF ok] f(1,2) by (simp add: packed_append)
qed

text \<open>New entities\<close>

lemma new_entity_store_ok:
  assumes n: "new_entity st = (k, st')" and ok: "store_ok st"
  shows "store_ok st'"
proof (rule store_okI)
  have st': "registered st' = registered st" "component_offsets st' = component_offsets st"
    "entities st' = (if map_of (entities st) k = None then entities st @ [(k, empty_elem)]
                     else entities st)"
    using n by (auto simp: new_entity_def Let_def)
  show "cache_ok st'" using store_okD(1)[OF ok] st' by (simp add: cache_ok_def)
  show "distinct (map fst (entities st'))"
    using store_okD(2)[OF ok] st'(3) by (auto simp: map_of_eq_None_iff)
  fix k' e assume "(k', e) \<in> set (entities st')"
  then show "packed (registered st') e"
    using store_okD(3)[OF ok] st' by (auto simp: packed_empty split: if_splits)
qed

text \<open>Removing a component\<close>

lemma bit_unset_bit_word: "bit (unset_bit c (m :: 64 word)) i = (bit m i \<and> i \<noteq> c)"
  by (auto simp: bit_unset_bit_iff)

lemma length_erase_at: "off + n \<le> length xs \<Longrightarrow> length (erase_at off n xs) = length xs - n"
  by (simp add: erase_at_def)

lemma packed_remove:
  assumes p: "packed comps e" and b: "bit (components e) c"
    and room: "off + c_size (comps ! c) \<le> length (data e)"
  shows "packed comps (e\<lparr>components := unset_bit c (components e), dirty := d,
                          data := erase_at off (c_size (comps ! c)) (data e)\<rparr>)"
proof -
  have c: "c < length comps" using p b by (rule packed_registered)
  have "bits_size comps (bit (components e)) (length comps) =
        bits_size comps (bit (unset_bit c (components e))) (length comps) + c_size (comps ! c)"
    using c b by (intro bits_size_add) (auto simp: bit_unset_bit_word)
  moreover have "bit (unset_bit c (components e)) i \<Longrightarrow> i < length comps" for i
    using packed_registered[OF p, of i] by (simp add: bit_unset_bit_word)
  ultimately show ?thesis
    using p room by (simp add: packed_def list_all_iff length_erase_at)
qed

lemma remove_component_store_ok:
  assumes r: "remove_component_from_entity en c st = Inr st'" and ok: "store_ok st"
  shows "store_ok st'"
proof -
  from r obtain k e where l: "lookup st en = Inr (k, e)"
    by (auto simp: remove_component_from_entity_def split: sum.splits)
  have p: "packed (registered st) e" using store_okD(3)[OF ok lookup_mem[OF l]] .
  show ?thesis
  proof (cases "bit (components e) c")
    case False
    then have "st' = st"
      using r l by (auto simp: remove_component_from_entity_def bitset_test_def split: if_splits)
    then show ?thesis using ok by simp
  next
    case True
    from r l True obtain off where
      room: "off + c_size (registered st ! c) \<le> length (data e)"
      and st': "entities st' = entities (store_elem k
                           (e\<lparr>components := unset_bit c (components e),
                              dirty := unset_bit c (dirty e),
                              data := erase_at off (c_size (registered st ! c)) (data e)\<rparr>) st)"
        "registered st' = registered st" "component_offsets st' = component_offsets st"
      by (auto simp: remove_component_from_entity_def bitset_test_def Let_def store_elem_def
          split: if_splits sum.splits)
    let ?s = "store_elem k
                           (e\<lparr>components := unset_bit c (components e),
                              dirty := unset_bit c (dirty e),
                              data := erase_at off (c_size (registered st ! c)) (data e)\<rparr>) st"
    have "store_ok ?s"
      using ok packed_remove[OF p True room] by (intro store_ok_store_elem) simp_all
    moreover have "store_ok st' = store_ok ?s"
      by (rule store_ok_cong) (simp_all add: st')
    ultimately show ?thesis by simp
  qed
qed

text \<open>Deleting an entity\<close>

lemma delete_entity_iter_fields:
  assumes "delete_entity_iter f st = Inr st'"
  obtains k e where "lookup st f = Inr (k, e)"
    "entities st' = filter (\<lambda>(k', e'). k' \<noteq> k) (entities st)"
    "registered st' = registered st" "component_offsets st' = component_offsets st"
    "destroy_all st e (boxed_ids st e) (heap st) = Inr (heap st')"
  using assms by (auto simp: delete_entity_iter_def split: sum.splits)

lemma delete_entity_iter_store_ok:
  assumes d: "delete_entity_iter f st = Inr st'" and ok: "store_ok st"
  shows "store_ok st'"
proof -
  from d obtain k where f: "entities st' = filter (\<lambda>(k', e'). k' \<noteq> k) (entities st)"
    "registered st' = registered st" "component_offsets st' = component_offsets st"
    by (rule delete_entity_iter_fields)
  show ?thesis
  proof (rule store_okI)
    show "cache_ok st'" using store_okD(1)[OF ok] f by (simp add: cache_ok_def)
    show "distinct (map fst (entities st'))"
      using store_okD(2)[OF ok] f(1) by (simp add: distinct_map_filter)
    fix k' e' assume "(k', e') \<in> set (entities st')"
    then show "packed (registered st') e'" using store_okD(3)[OF ok] f by auto
  qed
qed

text \<open>Dirty checks\<close>

lemma check_dirty_and_clear_store_ok:
  assumes "check_dirty_and_clear en st = Inr (b, st')" and ok: "store_ok st"
  shows "store_ok st'"
proof -
  from assms(1) obtain k e where l: "lookup st en = Inr (k, e)"
      and st': "st' = store_elem k (e\<lparr>dirty := 0\<rparr>) st"
    by (auto simp: check_dirty_and_clear_def split: sum.splits)
  have "packed (registered st) (e\<lparr>dirty := 0\<rparr>)"
    using store_okD(3)[OF ok lookup_mem[OF l]] by (simp add: packed_def)
  then show ?thesis unfolding st' using ok by (intro store_ok_store_elem)
qed

lemma check_dirty_flag_and_clear_store_ok:
  assumes "check_dirty_flag_and_clear en c st = Inr (b, st')" and ok: "store_ok st"
  shows "store_ok st'"
proof -
  from assms(1) obtain k e where l: "lookup st en = Inr (k, e)"
      and st': "st' = store_elem k (e\<lparr>dirty := unset_bit c (dirty e)\<rparr>) st"
    by (auto simp: check_dirty_flag_and_clear_def split: sum.splits)
  have "packed (registered st) (e\<lparr>dirty := unset_bit c (dirty e)\<rparr>)"
    using store_okD(3)[OF ok lookup_mem[OF l]] by (simp add: packed_def)
  then show ?thesis unfolding st' using ok by (intro store_ok_store_elem)
qed


text \<open>Cloning\<close>

lemma held_handle_Inr:
  assumes "held_handle off n xs = Inr h"
  shows "slot off n xs = replicate n (Held h)" "0 < n" "off + n \<le> length xs"
proof -
  show s: "slot off n xs = replicate n (Held h)"
    using assms by (auto simp: held_handle_def split: list.splits cell.splits if_splits)
  show n: "0 < n"
    using assms by (cases n) (auto simp: held_handle_def slot_def split: list.splits)
  have "length (slot off n xs) = n" using s by simp
  then show "off + n \<le> length xs" using n by (simp add: slot_def)
qed

lemma read_held_Inr:
  "read_held hp off n xs = Inr v \<Longrightarrow> 0 < n \<and> off + n \<le> length xs"
  by (auto simp: read_held_def split: sum.splits dest: held_handle_Inr)

lemma clone_held_length:
  "clone_held st e cs (d, hp) = Inr (d', hp') \<Longrightarrow> length d = length (data e) \<Longrightarrow>
   length d' = length d"
proof (induction cs arbitrary: d hp)
  case Nil
  then show ?case by simp
next
  case (Cons c cs)
  from Cons.prems(1) obtain off v where
    o: "offset st e c = Inr off"
    and r: "read_held hp off (c_size (registered st ! c)) (data e) = Inr v"
    and rest: "clone_held st e cs
              (place off (replicate (c_size (registered st ! c)) (Held (length hp))) d,
               hp @ [Some v]) = Inr (d', hp')"
    by (auto split: sum.splits)
  have len: "length (place off (replicate (c_size (registered st ! c)) (Held (length hp))) d) = length d"
    using read_held_Inr[OF r] Cons.prems(2) by (simp add: length_place)
  show ?case using Cons.IH[OF rest] len Cons.prems(2) by simp
qed

lemma clone_entity_store_ok:
  assumes cl: "clone_entity f st = Inr (k', st')" and ok: "store_ok st"
  shows "store_ok st'"
proof -
  from cl obtain k e d hp where l: "lookup st f = Inr (k, e)"
    and ch: "clone_held st e (boxed_ids st e) (data e, heap st) = Inr (d, hp)"
    and st': "st' = (if map_of (entities st) (next_id st) = None
                         then st\<lparr>entities := entities st @ [(next_id st, e\<lparr>data := d\<rparr>)]\<rparr>
                         else store_elem (next_id st) (e\<lparr>data := d\<rparr>) st)
                        \<lparr>next_id := next_id st + 1, heap := hp\<rparr>"
    by (auto simp: clone_entity_def Let_def split: sum.splits)
  have p: "packed (registered st) e" using store_okD(3)[OF ok lookup_mem[OF l]] .
  have "length d = length (data e)" using clone_held_length[OF ch] by simp
  then have pd: "packed (registered st) (e\<lparr>data := d\<rparr>)" using p by (simp add: packed_def)
  show ?thesis
  proof (cases "map_of (entities st) (next_id st) = None")
    case True
    have "store_ok (st\<lparr>entities := entities st @ [(next_id st, e\<lparr>data := d\<rparr>)]\<rparr>)"
    proof (rule store_okI)
      show "cache_ok (st\<lparr>entities := entities st @ [(next_id st, e\<lparr>data := d\<rparr>)]\<rparr>)"
        using store_okD(1)[OF ok] by (simp add: cache_ok_def)
      show "distinct (map fst (entities (st\<lparr>entities := entities st @ [(next_id st, e\<lparr>data := d\<rparr>)]\<rparr>)))"
        using store_okD(2)[OF ok] True by (auto simp: map_of_eq_None_iff)
      fix k1 e1
      assume "(k1, e1) \<in> set (entities (st\<lparr>entities := entities st @ [(next_id st, e\<lparr>data := d\<rparr>)]\<rparr>))"
      then show "packed (registered (st\<lparr>entities := entities st @ [(next_id st, e\<lparr>data := d\<rparr>)]\<rparr>)) e1"
        using store_okD(3)[OF ok] pd by auto
    qed
    then show ?thesis using True by (simp add: st')
  next
    case False
    then show ?thesis using ok pd by (auto simp: st' store_ok_store_elem)
  qed
qed

text \<open>Variable references\<close>

lemma touch_store_ok:
  assumes "touch vr st = Inr st'" and ok: "store_ok st"
  shows "store_ok st'"
proof -
  from assms(1) obtain k e d where l: "lookup st (Some (vr_elem vr)) = Inr (k, e)"
      and st': "st' = store_elem k (e\<lparr>dirty := d\<rparr>) st"
    by (auto simp: touch_def split: sum.splits)
  have "packed (registered st) (e\<lparr>dirty := d\<rparr>)"
    using store_okD(3)[OF ok lookup_mem[OF l]] by (simp add: packed_def)
  then show ?thesis unfolding st' using ok by (intro store_ok_store_elem)
qed

lemma var_assign_store_ok:
  assumes a: "var_assign ty vr v st = Inr st'" and ok: "store_ok st" and v: "valid_value ty v"
  shows "store_ok st'"
proof -
  from a obtain k e where l: "lookup st (Some (vr_elem vr)) = Inr (k, e)"
    and room: "vr_offset vr + size_of ty \<le> length (data e)"
    and t: "touch vr (store_elem k
               (e\<lparr>data := place (vr_offset vr) (fst (construct ty v (heap st))) (data e)\<rparr>)
               (st\<lparr>heap := snd (construct ty v (heap st))\<rparr>)) = Inr st'"
    by (auto simp: var_assign_def split: sum.splits if_splits prod.splits)
  have "packed (registered st) (e\<lparr>data := place (vr_offset vr) (fst (construct ty v (heap st))) (data e)\<rparr>)"
    using store_okD(3)[OF ok lookup_mem[OF l]] room v
    by (simp add: packed_def length_place length_construct)
  then have "store_ok (store_elem k
               (e\<lparr>data := place (vr_offset vr) (fst (construct ty v (heap st))) (data e)\<rparr>)
               (st\<lparr>heap := snd (construct ty v (heap st))\<rparr>))"
    using ok by (intro store_ok_store_elem) simp_all
  with t show ?thesis by (rule touch_store_ok)
qed

lemma unraw_length: "unraw cs = Some v \<Longrightarrow> length v = length cs"
proof (induction cs arbitrary: v)
  case Nil
  then show ?case by simp
next
  case (Cons x cs)
  then show ?case by (cases x) auto
qed

lemma read_flat_Inr: "read_flat off n xs = Inr v \<Longrightarrow> off + n \<le> length xs \<and> length v = n"
  by (auto simp: read_flat_def slot_def split: if_splits option.splits dest!: unraw_length)

lemma var_compound_store_ok:
  assumes a: "var_compound ty vr f st = Inr st'" and ok: "store_ok st"
    and f: "\<And>v. length (f v) = length v"
  shows "store_ok st'"
proof -
  from a obtain k e where l: "lookup st (Some (vr_elem vr)) = Inr (k, e)"
    by (auto simp: var_compound_def split: sum.splits)
  have p: "packed (registered st) e" using store_okD(3)[OF ok lookup_mem[OF l]] .
  show ?thesis
  proof (cases "is_flat ty")
    case True
    from a l True obtain v where r: "read_flat (vr_offset vr) (size_of ty) (data e) = Inr v"
      and t: "touch vr (store_elem k
                   (e\<lparr>data := place (vr_offset vr) (map Raw (f v)) (data e)\<rparr>) st) = Inr st'"
      by (auto simp: var_compound_def split: sum.splits)
    have "packed (registered st) (e\<lparr>data := place (vr_offset vr) (map Raw (f v)) (data e)\<rparr>)"
      using p read_flat_Inr[OF r] f by (simp add: packed_def length_place)
    then have "store_ok (store_elem k
                   (e\<lparr>data := place (vr_offset vr) (map Raw (f v)) (data e)\<rparr>) st)"
      using ok by (intro store_ok_store_elem)
    with t show ?thesis by (rule touch_store_ok)
  next
    case False
    from a l False obtain hp where t: "touch vr (st\<lparr>heap := hp\<rparr>) = Inr st'"
      by (auto simp: var_compound_def split: sum.splits if_splits option.splits)
    then show ?thesis using ok by (intro touch_store_ok[OF t]) simp
  qed
qed

lemma step_store_ok: "step st st' \<Longrightarrow> store_ok st \<Longrightarrow> store_ok st'"
proof (induction rule: step.induct)
  case (step_register ty nm st c st')
  then show ?case by (rule register_component_store_ok)
next
  case (step_new_entity st k st')
  then show ?case by (rule new_entity_store_ok)
next
  case (step_set ty v en c st st')
  then show ?case using set_iter_store_ok by blast
next
  case (step_remove en c st st')
  then show ?case by (rule remove_component_store_ok)
next
  case (step_clone f st k st')
  then show ?case by (rule clone_entity_store_ok)
next
  case (step_delete f st st')
  then show ?case by (rule delete_entity_iter_store_ok)
next
  case (step_dirty_clear en st b st')
  then show ?case by (rule check_dirty_and_clear_store_ok)
next
  case (step_flag_clear en c st b st')
  then show ?case by (rule check_dirty_flag_and_clear_store_ok)
next
  case (step_assign st vr k e ty v st')
  then show ?case using var_assign_store_ok by blast
next
  case (step_compound st vr k e f ty st')
  then show ?case using var_compound_store_ok by blast
qed

lemma store_ok_new: "store_ok new_storage"
  using cache_ok_new by (simp add: store_ok_def new_storage_def)

lemma reachable_store_ok: "reachable st \<Longrightarrow> store_ok st"
  by (induction rule: reachable.induct) (auto intro: store_ok_new step_store_ok)

section \<open>Reaching the example storages\<close>

lemma register_all_reachable:
  "register_all tys st = Inr st' \<Longrightarrow> reachable st \<Longrightarrow> reachable st'"
proof (induction tys arbitrary: st)
  case Nil
  then show ?case by simp
next
  case (Cons a tys)
  obtain ty nm where a: "a = (ty, nm)" by (cases a)
  from Cons.prems(1) obtain c st1 where r: "register_component ty nm st = Inr (c, st1)"
      and rest: "register_all tys st1 = Inr st'"
    by (auto simp: a split: sum.splits)
  have "reachable st1" using Cons.prems(2) step_register[OF r] by (rule reachable_step)
  then show ?case using Cons.IH[OF rest] by simp
qed

lemma reachable_demo_registry: "reachable demo_registry"
  using demo_registry_built reachable_new by (rule register_all_reachable)

lemma new_entity_demo: "new_entity demo_registry = (0, demo_store)"
  by (simp add: new_entity_def demo_registry_def demo_store_def)

lemma reachable_demo_store: "reachable demo_store"
  using reachable_demo_registry step_new_entity[OF new_entity_demo] by (rule reachable_step)

lemma set_position_demo:
  "set_iter position_t (Some 0) 0 [1, 0, 0, 0, 2, 0, 0, 0] demo_store = Inr demo_position"
  by (simp add: set_iter_def demo_store_def demo_registry_def demo_position_def lookup_def
      offset_def cached_def cache_size_def cache_mask_def bitset_test_def grow_def insert_at_def
      place_def construct_def position_t_def store_elem_def empty_elem_def Let_def)

lemma set_bit_1_1: "set_bit (Suc 0) (1 :: 64 word) = 3"
  by (simp add: set_bit_eq_or)

lemma set_name_demo:
  "set_iter name_t (Some 0) 1 hero demo_position = Inr demo_hero"
  by (simp add: set_iter_def demo_hero_def demo_registry_def demo_position_def lookup_def
      offset_def cached_def cache_size_def cache_mask_def bitset_test_def grow_def insert_at_def
      place_def construct_def name_t_def store_elem_def Let_def set_bit_1_1)

section \<open>Packing invariant of the reachable storages\<close>

lemma reachable_demo_position: "reachable demo_position"
proof -
  have "valid_value position_t [1, 0, 0, 0, 2, 0, 0, 0]"
    by (simp add: valid_value_def position_t_def)
  then have "step demo_store demo_position" using set_position_demo by (rule step_set)
  with reachable_demo_store show ?thesis by (rule reachable_step)
qed

lemma step_demo_hero: "step demo_position demo_hero"
proof -
  have "valid_value name_t hero" by (simp add: valid_value_def name_t_def)
  then show ?thesis using set_name_demo by (rule step_set)
qed

lemma reachable_demo_hero: "reachable demo_hero"
  using reachable_demo_position step_demo_hero by (rule reachable_step)

text \<open>The chars of the slots under \<open>set\<close>, \<open>remove_component_from_entity\<close>, \<open>clone_entity\<close> and
  \<open>delete_entity\<close>.\<close>

lemma take_drop_take:
  "off' + n \<le> off \<Longrightarrow> take n (drop off' (take off xs)) = take n (drop off' xs)"
  by (simp add: drop_take min_def)

lemma slot_place_before:
  "off' + n \<le> off \<Longrightarrow> off + length cs \<le> length xs \<Longrightarrow>
   slot off' n (place off cs xs) = slot off' n xs"
  by (simp add: slot_def place_def take_drop_take)

lemma slot_place_after:
  "off + length cs \<le> off' \<Longrightarrow> off + length cs \<le> length xs \<Longrightarrow>
   slot off' n (place off cs xs) = slot off' n xs"
  by (simp add: slot_def place_def)

lemma slot_insert_before:
  "off' + n \<le> off \<Longrightarrow> off \<le> length xs \<Longrightarrow>
   slot off' n (insert_at off zs xs) = slot off' n xs"
  by (simp add: slot_def insert_at_def take_drop_take)

lemma slot_insert_after:
  "off \<le> off' \<Longrightarrow> off \<le> length xs \<Longrightarrow>
   slot (off' + length zs) n (insert_at off zs xs) = slot off' n xs"
  by (simp add: slot_def insert_at_def)

lemma slot_erase_before:
  "off' + n \<le> off \<Longrightarrow> off + m \<le> length xs \<Longrightarrow>
   slot off' n (erase_at off m xs) = slot off' n xs"
  by (simp add: slot_def erase_at_def take_drop_take)

lemma slot_erase_after:
  "off \<le> off' \<Longrightarrow> off + m \<le> length xs \<Longrightarrow>
   slot off' n (erase_at off m xs) = slot (off' + m) n xs"
  by (simp add: slot_def erase_at_def)

lemma take_bits_size:
  "take (bits_size comps P n) xs =
   concat (map (\<lambda>c. slot (bits_size comps P c) (c_size (comps ! c)) xs) (filter P [0..<n]))"
  by (induction n) (simp_all add: take_add slot_def)


lemma bits_size_above_set:
  "c < c' \<Longrightarrow> c < 64 \<Longrightarrow> \<not> bit m c \<Longrightarrow>
   bits_size comps (bit (set_bit c (m :: 64 word))) c' = bits_size comps (bit m) c' + c_size (comps ! c)"
  by (rule bits_size_add) (simp_all add: bit_set_bit_word)

lemma bits_size_upto_set:
  "c' \<le> c \<Longrightarrow> c < 64 \<Longrightarrow>
   bits_size comps (bit (set_bit c (m :: 64 word))) c' = bits_size comps (bit m) c'"
  by (rule bits_size_cong) (simp_all add: bit_set_bit_word)

lemma bits_size_above_unset:
  "c < c' \<Longrightarrow> bit m c \<Longrightarrow>
   bits_size comps (bit m) c' = bits_size comps (bit (unset_bit c (m :: 64 word))) c' + c_size (comps ! c)"
  by (rule bits_size_add) (auto simp: bit_unset_bit_word)

lemma bits_size_upto_unset:
  "c' \<le> c \<Longrightarrow> bits_size comps (bit (unset_bit c (m :: 64 word))) c' = bits_size comps (bit m) c'"
  by (rule bits_size_cong) (simp_all add: bit_unset_bit_word)

lemma contents_after_set:
  assumes p: "packed comps e" and c: "c < length comps" "c < 64"
    and len: "length cells = c_size (comps ! c)"
    and e1: "e1 = (if bit (components e) c then e
                   else grow (comps ! c) c (bits_size comps (bit (components e)) c) e)"
  shows "contents comps
           (e1\<lparr>data := place (bits_size comps (bit (components e)) c) cells (data e1), dirty := d\<rparr>) =
         (contents comps e)(c \<mapsto> cells)"
proof (rule ext)
  fix i
  let ?m = "components e"
  let ?B = "bits_size comps (bit ?m)"
  let ?e' = "e1\<lparr>data := place (?B c) cells (data e1), dirty := d\<rparr>"
  have lenD: "length (data e) = ?B (length comps)" using p by (simp add: packed_def)
  have offle: "?B c \<le> length (data e)" using c lenD by (simp add: bits_size_mono)
  have top: "?B j + c_size (comps ! j) \<le> length (data e)" if "bit ?m j" for j
    using packed_registered[OF p that]
          bits_size_slot[of j "length comps" "bit ?m" comps] that lenD by simp
  show "contents comps ?e' i = ((contents comps e)(c \<mapsto> cells)) i"
  proof (cases "bit ?m c")
    case True
    then have e1e: "e1 = e" using e1 by simp
    have room: "?B c + length cells \<le> length (data e)" using top[OF True] len by simp
    show ?thesis
    proof (cases "i = c")
      case True
      then show ?thesis
        using \<open>bit ?m c\<close> slot_place[OF room] len
        by (simp add: contents_def component_slot_def e1e)
    next
      case False
      show ?thesis
      proof (cases "bit ?m i")
        case nb: False
        then show ?thesis using False by (simp add: contents_def e1e)
      next
        case b: True
        have "slot (?B i) (c_size (comps ! i)) (place (?B c) cells (data e)) =
              slot (?B i) (c_size (comps ! i)) (data e)"
        proof (cases "i < c")
          case True
          then have "?B i + c_size (comps ! i) \<le> ?B c" using b by (rule bits_size_slot)
          then show ?thesis using room by (rule slot_place_before)
        next
          case False
          then have "c < i" using \<open>i \<noteq> c\<close> by simp
          then have "?B c + c_size (comps ! c) \<le> ?B i" using \<open>bit ?m c\<close> by (rule bits_size_slot)
          then have "?B c + length cells \<le> ?B i" using len by simp
          then show ?thesis using room by (rule slot_place_after)
        qed
        then show ?thesis using False b by (simp add: contents_def component_slot_def e1e)
      qed
    qed
  next
    case False
    let ?z = "replicate (c_size (comps ! c)) (Raw 0)"
    let ?d1 = "insert_at (?B c) ?z (data e)"
    let ?m' = "set_bit c ?m"
    let ?B' = "bits_size comps (bit ?m')"
    have d1: "data e1 = ?d1" and m1: "components e1 = ?m'"
      using False e1 offle by (simp_all add: grow_def)
    have Bc: "?B' c = ?B c" using c by (simp add: bits_size_upto_set)
    have room: "?B c + length cells \<le> length ?d1"
      using offle len by (simp add: length_insert_at)
    show ?thesis
    proof (cases "i = c")
      case True
      then show ?thesis
        using c slot_place[OF room] len
        by (simp add: contents_def component_slot_def d1 m1 Bc bit_set_bit_word)
    next
      case ic: False
      show ?thesis
      proof (cases "bit ?m i")
        case nb: False
        then show ?thesis using ic c by (simp add: contents_def m1 bit_set_bit_word)
      next
        case b: True
        have "slot (?B' i) (c_size (comps ! i)) (place (?B c) cells ?d1) =
              slot (?B i) (c_size (comps ! i)) (data e)"
        proof (cases "i < c")
          case True
          then have le: "?B i + c_size (comps ! i) \<le> ?B c" using b by (rule bits_size_slot)
          have "?B' i = ?B i" using True c by (simp add: bits_size_upto_set)
          moreover have "slot (?B i) (c_size (comps ! i)) (place (?B c) cells ?d1) =
                slot (?B i) (c_size (comps ! i)) ?d1"
            using le room by (rule slot_place_before)
          moreover have "slot (?B i) (c_size (comps ! i)) ?d1 = slot (?B i) (c_size (comps ! i)) (data e)"
            using le offle by (rule slot_insert_before)
          ultimately show ?thesis by simp
        next
          case nl: False
          then have ci: "c < i" using ic by simp
          then have le: "?B c \<le> ?B i" by (simp add: bits_size_mono)
          have B'i: "?B' i = ?B i + length ?z" using ci c False by (simp add: bits_size_above_set)
          have "slot (?B i + length ?z) (c_size (comps ! i)) (place (?B c) cells ?d1) =
                slot (?B i + length ?z) (c_size (comps ! i)) ?d1"
            using le len room by (intro slot_place_after) simp_all
          moreover have "slot (?B i + length ?z) (c_size (comps ! i)) ?d1 =
                slot (?B i) (c_size (comps ! i)) (data e)"
            using le offle by (rule slot_insert_after)
          ultimately show ?thesis using B'i by simp
        qed
        then show ?thesis
          using ic b c by (simp add: contents_def component_slot_def d1 m1 bit_set_bit_word)
      qed
    qed
  qed
qed

lemma contents_after_remove:
  assumes p: "packed comps e" and b: "bit (components e) c"
  shows "contents comps
           (e\<lparr>components := unset_bit c (components e), dirty := d,
              data := erase_at (bits_size comps (bit (components e)) c) (c_size (comps ! c)) (data e)\<rparr>) =
         (contents comps e)(c := None)"
proof (rule ext)
  fix i
  let ?m = "components e"
  let ?B = "bits_size comps (bit ?m)"
  let ?m' = "unset_bit c ?m"
  let ?B' = "bits_size comps (bit ?m')"
  let ?n = "c_size (comps ! c)"
  let ?d' = "erase_at (?B c) ?n (data e)"
  let ?e' = "e\<lparr>components := ?m', dirty := d, data := ?d'\<rparr>"
  have lenD: "length (data e) = ?B (length comps)" using p by (simp add: packed_def)
  have c: "c < length comps" using p b by (rule packed_registered)
  have room: "?B c + ?n \<le> length (data e)"
    using bits_size_slot[of c "length comps" "bit ?m" comps] c b lenD by simp
  show "contents comps ?e' i = ((contents comps e)(c := None)) i"
  proof (cases "i \<noteq> c \<and> bit ?m i")
    case False
    then show ?thesis by (auto simp: contents_def bit_unset_bit_word)
  next
    case True
    then have ic: "i \<noteq> c" and bi: "bit ?m i" by simp_all
    have "slot (?B' i) (c_size (comps ! i)) ?d' = slot (?B i) (c_size (comps ! i)) (data e)"
    proof (cases "i < c")
      case True
      then have le: "?B i + c_size (comps ! i) \<le> ?B c" using bi by (rule bits_size_slot)
      have "?B' i = ?B i" using True by (simp add: bits_size_upto_unset)
      moreover have "slot (?B i) (c_size (comps ! i)) ?d' = slot (?B i) (c_size (comps ! i)) (data e)"
        using le room by (rule slot_erase_before)
      ultimately show ?thesis by simp
    next
      case False
      then have ci: "c < i" using ic by simp
      have Bi: "?B i = ?B' i + ?n" using ci b by (rule bits_size_above_unset)
      have "?B c \<le> ?B' c" by (simp add: bits_size_upto_unset)
      also have "\<dots> \<le> ?B' i" using ci by (simp add: bits_size_mono)
      finally have le: "?B c \<le> ?B' i" .
      have "slot (?B' i) (c_size (comps ! i)) ?d' = slot (?B' i + ?n) (c_size (comps ! i)) (data e)"
        using le room by (rule slot_erase_after)
      then show ?thesis using Bi by simp
    qed
    then show ?thesis using ic bi by (simp add: contents_def component_slot_def bit_unset_bit_word)
  qed
qed

lemma data_concat:
  assumes "packed comps e"
  shows "data e = concat (map (component_slot comps e) (present_ids comps e))"
proof -
  have "data e = take (bits_size comps (bit (components e)) (length comps)) (data e)"
    using assms by (simp add: packed_def)
  also have "\<dots> = concat (map (component_slot comps e) (present_ids comps e))"
    unfolding take_bits_size component_slot_def present_ids_def by (rule refl)
  finally show ?thesis .
qed

lemma map_of_entity:
  "store_ok st \<Longrightarrow> (k, e) \<in> set (entities st) \<Longrightarrow> map_of (entities st) k = Some e"
  by (simp add: store_ok_def)

lemma set_iter_contents:
  assumes ok: "store_ok st" and e: "map_of (entities st) k = Some e"
    and ty: "type_matches (registered st ! c) ty" and v: "valid_value ty v"
    and s: "set_iter ty (Some k) c v st = Inr st'"
  shows "\<exists>e'. map_of (entities st') k = Some e' \<and>
              contents (registered st') e' =
                (contents (registered st) e)(c \<mapsto> fst (construct ty v (heap st))) \<and>
              (\<forall>k'. k' \<noteq> k \<longrightarrow> map_of (entities st') k' = map_of (entities st) k')"
proof -
  from s obtain k0 e0 off e1 where
    en: "Some k = Some k0" and e0: "map_of (entities st) k0 = Some e0"
    and c: "c < length (registered st)" "c < 64"
    and o: "offset st e0 c = Inr off"
    and e1: "e1 = (if bit (components e0) c then e0 else grow (registered st ! c) c off e0)"
    and st': "st' = store_elem k0
        (e1\<lparr>data := place off (fst (construct ty v (heap st))) (data e1),
            dirty := set_bit c (dirty e1)\<rparr>)
        (st\<lparr>heap := snd (construct ty v (heap st))\<rparr>)"
    by (rule set_iter_Inr)
  have k0: "k0 = k" and ee: "e0 = e" using en e0 e by simp_all
  have p: "packed (registered st) e" using ok e by (rule store_ok_packed)
  have off: "off = bits_size (registered st) (bit (components e)) c"
    using o offset_eq[of st e c] ok p c by (simp add: store_ok_def ee)
  have len: "length (fst (construct ty v (heap st))) = c_size (registered st ! c)"
    using v ty by (simp add: length_construct type_matches_def)
  let ?e' = "e1\<lparr>data := place off (fst (construct ty v (heap st))) (data e1),
                 dirty := set_bit c (dirty e1)\<rparr>"
  have "contents (registered st) ?e' = (contents (registered st) e)(c \<mapsto> fst (construct ty v (heap st)))"
    unfolding off using p c len e1[unfolded ee off] by (rule contents_after_set)
  moreover have "map_of (entities st') k = Some ?e'"
    using e by (simp add: st' k0 map_of_store_elem)
  moreover have "map_of (entities st') k' = map_of (entities st) k'" if "k' \<noteq> k" for k'
    using that by (simp add: st' k0 map_of_store_elem)
  moreover have "registered st' = registered st" by (simp add: st')
  ultimately show ?thesis by simp
qed

lemma remove_component_contents:
  assumes ok: "store_ok st" and e: "map_of (entities st) k = Some e"
    and r: "remove_component_from_entity (Some k) c st = Inr st'"
  shows "\<exists>e'. map_of (entities st') k = Some e' \<and>
              contents (registered st') e' = (contents (registered st) e)(c := None) \<and>
              (\<forall>k'. k' \<noteq> k \<longrightarrow> map_of (entities st') k' = map_of (entities st) k')"
proof -
  have l: "lookup st (Some k) = Inr (k, e)" using e by (rule lookup_Some)
  have p: "packed (registered st) e" using ok e by (rule store_ok_packed)
  show ?thesis
  proof (cases "bit (components e) c")
    case False
    then have "st' = st"
      using r l by (auto simp: remove_component_from_entity_def bitset_test_def split: if_splits)
    moreover have "(contents (registered st) e)(c := None) = contents (registered st) e"
      using False by (auto simp: contents_def)
    ultimately show ?thesis using e by simp
  next
    case True
    have c: "c < length (registered st)" using p True by (rule packed_registered)
    have o: "offset st e c = Inr (bits_size (registered st) (bit (components e)) c)"
      using store_okD(1)[OF ok] p c by (rule offset_eq)
    let ?e' = "e\<lparr>components := unset_bit c (components e), dirty := unset_bit c (dirty e),
                  data := erase_at (bits_size (registered st) (bit (components e)) c)
                            (c_size (registered st ! c)) (data e)\<rparr>"
    from r l True o c have st': "entities st' = entities (store_elem k ?e' st)"
        "registered st' = registered st"
      by (auto simp: remove_component_from_entity_def bitset_test_def Let_def store_elem_def
          split: if_splits sum.splits)
    have "contents (registered st) ?e' = (contents (registered st) e)(c := None)"
      using p True by (rule contents_after_remove)
    moreover have "map_of (entities st') k = Some ?e'"
      using e by (simp add: st' map_of_store_elem)
    moreover have "map_of (entities st') k' = map_of (entities st) k'" if "k' \<noteq> k" for k'
      using that by (simp add: st' map_of_store_elem)
    ultimately show ?thesis using st'(2) by simp
  qed
qed

lemma length_component_slot:
  "packed comps e \<Longrightarrow> bit (components e) c \<Longrightarrow>
   length (component_slot comps e c) = c_size (comps ! c)"
  using bits_size_slot[of c "length comps" "bit (components e)" comps] packed_registered[of comps e c]
  by (simp add: component_slot_def slot_def packed_def)

lemma slot_place_other:
  assumes i: "bit m i" and c: "bit m c" and ne: "i \<noteq> c"
    and len: "length cs = c_size (comps ! c)"
    and room: "bits_size comps (bit m) c + length cs \<le> length xs"
  shows "slot (bits_size comps (bit m) i) (c_size (comps ! i)) (place (bits_size comps (bit m) c) cs xs) =
         slot (bits_size comps (bit m) i) (c_size (comps ! i)) xs"
proof (cases "i < c")
  case True
  then have "bits_size comps (bit m) i + c_size (comps ! i) \<le> bits_size comps (bit m) c"
    using i by (rule bits_size_slot)
  then show ?thesis using room by (rule slot_place_before)
next
  case False
  then have "c < i" using ne by simp
  then have "bits_size comps (bit m) c + c_size (comps ! c) \<le> bits_size comps (bit m) i"
    using c by (rule bits_size_slot)
  then have "bits_size comps (bit m) c + length cs \<le> bits_size comps (bit m) i" using len by simp
  then show ?thesis using room by (rule slot_place_after)
qed

lemma read_held_prefix:
  assumes "read_held hp0 off n xs = Inr v" and "length hp0 \<le> length hp"
    and "\<And>h. h < length hp0 \<Longrightarrow> hp ! h = hp0 ! h"
  shows "read_held hp off n xs = Inr v"
  using assms by (auto simp: read_held_def split: sum.splits if_splits option.splits)

lemma clone_held_slots:
  assumes ch: "clone_held st e cs (d, hp) = Inr (d', hp')"
    and ok: "cache_ok st" and p: "packed (registered st) e"
    and len: "length d = length (data e)"
    and cs: "distinct cs" "\<And>c. c \<in> set cs \<Longrightarrow> bit (components e) c"
    and pre: "length hp0 \<le> length hp" "\<And>h. h < length hp0 \<Longrightarrow> hp ! h = hp0 ! h"
  shows "length hp \<le> length hp' \<and> (\<forall>h<length hp. hp' ! h = hp ! h) \<and>
     (\<forall>i. bit (components e) i \<longrightarrow> i \<notin> set cs \<longrightarrow>
          slot (bits_size (registered st) (bit (components e)) i) (c_size (registered st ! i)) d' =
          slot (bits_size (registered st) (bit (components e)) i) (c_size (registered st ! i)) d) \<and>
     (\<forall>c\<in>set cs. \<exists>h.
          slot (bits_size (registered st) (bit (components e)) c) (c_size (registered st ! c)) d' =
            replicate (c_size (registered st ! c)) (Held h) \<and>
          length hp \<le> h \<and> h < length hp' \<and>
          (\<forall>v. read_held hp0 (bits_size (registered st) (bit (components e)) c)
                 (c_size (registered st ! c)) (data e) = Inr v \<longrightarrow> hp' ! h = Some v))"
  using ch len cs pre
proof (induction cs arbitrary: d hp)
  case Nil
  then show ?case by simp
next
  case (Cons c cs)
  let ?B = "bits_size (registered st) (bit (components e))"
  let ?n = "\<lambda>i. c_size (registered st ! i)"
  have bc: "bit (components e) c" using Cons.prems(4) by simp
  have creg: "c < length (registered st)" using p bc by (rule packed_registered)
  have o: "offset st e c = Inr (?B c)" using ok p creg by (rule offset_eq)
  let ?cells = "replicate (?n c) (Held (length hp))"
  let ?d1 = "place (?B c) ?cells d"
  from Cons.prems(1) o obtain v0 where
    r: "read_held hp (?B c) (?n c) (data e) = Inr v0"
    and rest: "clone_held st e cs (?d1, hp @ [Some v0]) = Inr (d', hp')"
    by (auto split: sum.splits)
  have room: "?B c + length ?cells \<le> length d"
    using read_held_Inr[OF r] Cons.prems(2) by simp
  have len1: "length ?d1 = length (data e)"
    using room Cons.prems(2) by (simp add: length_place)
  have dist: "distinct cs" "c \<notin> set cs" using Cons.prems(3) by simp_all
  have pres: "\<And>c'. c' \<in> set cs \<Longrightarrow> bit (components e) c'" using Cons.prems(4) by simp
  have pre1: "length hp0 \<le> length (hp @ [Some v0])" using Cons.prems(5) by simp
  have pre2: "\<And>h. h < length hp0 \<Longrightarrow> (hp @ [Some v0]) ! h = hp0 ! h"
    using Cons.prems(5,6) by (simp add: nth_append)
  note IH = Cons.IH[OF rest len1 dist(1) pres pre1 pre2]
  have IH1: "length (hp @ [Some v0]) \<le> length hp'" using IH by blast
  have IH2: "\<And>h. h < length (hp @ [Some v0]) \<Longrightarrow> hp' ! h = (hp @ [Some v0]) ! h" using IH by blast
  have IH3: "\<And>i. bit (components e) i \<Longrightarrow> i \<notin> set cs \<Longrightarrow> slot (?B i) (?n i) d' = slot (?B i) (?n i) ?d1"
    using IH by blast
  have IH4: "\<And>c'. c' \<in> set cs \<Longrightarrow> \<exists>h. slot (?B c') (?n c') d' = replicate (?n c') (Held h) \<and>
          length (hp @ [Some v0]) \<le> h \<and> h < length hp' \<and>
          (\<forall>v. read_held hp0 (?B c') (?n c') (data e) = Inr v \<longrightarrow> hp' ! h = Some v)"
    using IH by blast
  have A: "length hp \<le> length hp'" using IH1 by simp
  have B: "hp' ! h = hp ! h" if "h < length hp" for h
    using IH2[of h] that by (simp add: nth_append)
  have C: "slot (?B i) (?n i) d' = slot (?B i) (?n i) d"
    if "bit (components e) i" "i \<notin> set (c # cs)" for i
  proof -
    have "slot (?B i) (?n i) d' = slot (?B i) (?n i) ?d1" using that by (intro IH3) simp_all
    also have "\<dots> = slot (?B i) (?n i) d"
      using that(1) bc _ _ room by (rule slot_place_other) (use that(2) in simp_all)
    finally show ?thesis .
  qed
  have D: "\<exists>h. slot (?B c') (?n c') d' = replicate (?n c') (Held h) \<and>
          length hp \<le> h \<and> h < length hp' \<and>
          (\<forall>v. read_held hp0 (?B c') (?n c') (data e) = Inr v \<longrightarrow> hp' ! h = Some v)"
    if "c' \<in> set (c # cs)" for c'
  proof (cases "c' = c")
    case True
    have "slot (?B c) (?n c) d' = slot (?B c) (?n c) ?d1" using bc dist(2) by (rule IH3)
    also have "\<dots> = ?cells" using slot_place[OF room] by simp
    finally have s: "slot (?B c) (?n c) d' = ?cells" .
    have h: "hp' ! length hp = Some v0" using IH2[of "length hp"] by simp
    have "v = v0" if "read_held hp0 (?B c) (?n c) (data e) = Inr v" for v
      using read_held_prefix[OF that Cons.prems(5,6)] r by simp
    then show ?thesis using s h IH1 True by auto
  next
    case False
    then have "c' \<in> set cs" using that by simp
    from IH4[OF this] show ?thesis by auto
  qed
  show ?case using A B C D by blast
qed

lemma clone_entity_contents:
  assumes ok: "store_ok st" and e: "map_of (entities st) k = Some e"
    and cl: "clone_entity (Some k) st = Inr (k', st')"
  shows "\<exists>e'. map_of (entities st') k' = Some e' \<and> components e' = components e \<and>
              (\<forall>c. bit (components e) c \<longrightarrow>
                   (if c_flat (registered st ! c)
                    then component_slot (registered st') e' c = component_slot (registered st) e c
                    else \<exists>h. component_slot (registered st') e' c =
                               replicate (c_size (registered st ! c)) (Held h) \<and>
                             length (heap st) \<le> h \<and> h < length (heap st') \<and>
                             (\<forall>v. read_held (heap st) (bits_size (registered st) (bit (components e)) c)
                                    (c_size (registered st ! c)) (data e) = Inr v \<longrightarrow>
                                  heap st' ! h = Some v))) \<and>
              (\<forall>k''. k'' \<noteq> k' \<longrightarrow> map_of (entities st') k'' = map_of (entities st) k'')"
proof -
  have l: "lookup st (Some k) = Inr (k, e)" using e by (rule lookup_Some)
  from cl l obtain d hp where
    ch: "clone_held st e (boxed_ids st e) (data e, heap st) = Inr (d, hp)"
    and k': "k' = next_id st"
    and st': "st' = (if map_of (entities st) (next_id st) = None
                         then st\<lparr>entities := entities st @ [(next_id st, e\<lparr>data := d\<rparr>)]\<rparr>
                         else store_elem (next_id st) (e\<lparr>data := d\<rparr>) st)
                        \<lparr>next_id := next_id st + 1, heap := hp\<rparr>"
    by (auto simp: clone_entity_def Let_def split: sum.splits)
  have p: "packed (registered st) e" using ok e by (rule store_ok_packed)
  have bx: "distinct (boxed_ids st e)" "\<And>c. c \<in> set (boxed_ids st e) \<Longrightarrow> bit (components e) c"
    by (simp_all add: boxed_ids_def)
  note S = clone_held_slots[OF ch store_okD(1)[OF ok] p refl bx, of "heap st"]
  have S3: "\<And>i. bit (components e) i \<Longrightarrow> i \<notin> set (boxed_ids st e) \<Longrightarrow>
          slot (bits_size (registered st) (bit (components e)) i) (c_size (registered st ! i)) d =
          slot (bits_size (registered st) (bit (components e)) i) (c_size (registered st ! i)) (data e)"
    using S by blast
  have S4: "\<And>c. c \<in> set (boxed_ids st e) \<Longrightarrow> \<exists>h.
          slot (bits_size (registered st) (bit (components e)) c) (c_size (registered st ! c)) d =
            replicate (c_size (registered st ! c)) (Held h) \<and>
          length (heap st) \<le> h \<and> h < length hp \<and>
          (\<forall>v. read_held (heap st) (bits_size (registered st) (bit (components e)) c)
                 (c_size (registered st ! c)) (data e) = Inr v \<longrightarrow> hp ! h = Some v)"
    using S by blast
  let ?e' = "e\<lparr>data := d\<rparr>"
  have reg: "registered st' = registered st" and hp: "heap st' = hp" by (simp_all add: st')
  have m: "map_of (entities st') k' = Some ?e'"
    by (auto simp: st' k' map_of_store_elem map_add_def)
  have others: "map_of (entities st') k'' = map_of (entities st) k''" if "k'' \<noteq> k'" for k''
    using that by (auto simp: st' k' map_of_store_elem map_add_def split: option.splits)
  have slots: "if c_flat (registered st ! c)
                    then component_slot (registered st') ?e' c = component_slot (registered st) e c
                    else \<exists>h. component_slot (registered st') ?e' c =
                               replicate (c_size (registered st ! c)) (Held h) \<and>
                             length (heap st) \<le> h \<and> h < length (heap st') \<and>
                             (\<forall>v. read_held (heap st) (bits_size (registered st) (bit (components e)) c)
                                    (c_size (registered st ! c)) (data e) = Inr v \<longrightarrow>
                                  heap st' ! h = Some v)"
    if b: "bit (components e) c" for c
  proof (cases "c_flat (registered st ! c)")
    case True
    then have "c \<notin> set (boxed_ids st e)" by (simp add: boxed_ids_def)
    from S3[OF b this] True show ?thesis by (simp add: component_slot_def reg)
  next
    case False
    have "c < length (registered st)" using p b by (rule packed_registered)
    then have "c \<in> set (boxed_ids st e)" using b False by (simp add: boxed_ids_def)
    from S4[OF this] False show ?thesis by (simp add: component_slot_def reg hp)
  qed
  show ?thesis using m others slots by (intro exI[of _ ?e']) simp
qed

lemma delete_entity_iter_others:
  assumes "delete_entity_iter (Some k) st = Inr st'"
  shows "map_of (entities st') k = None \<and>
         (\<forall>k'. k' \<noteq> k \<longrightarrow> map_of (entities st') k' = map_of (entities st) k')"
proof -
  from assms obtain k0 e0 where l: "lookup st (Some k) = Inr (k0, e0)"
    and f: "entities st' = filter (\<lambda>(k', e'). k' \<noteq> k0) (entities st)"
    by (rule delete_entity_iter_fields)
  have k0: "k0 = k" using lookup_Inr[OF l] by simp
  have "map_of (filter (\<lambda>(k', e'). k' \<noteq> k) xs) k' = (if k' = k then None else map_of xs k')"
    for xs :: "(entity \<times> elem) list" and k'
    by (induction xs) auto
  then show ?thesis by (simp add: f k0)
qed

lemma set_bit_1_0: "set_bit (Suc 0) (0 :: 64 word) = 2"
  by (simp add: set_bit_eq_or)

lemma set_bit_0_2: "set_bit 0 (2 :: 64 word) = 3"
  by (simp add: set_bit_eq_or)

lemma bit_2_word: "bit (2 :: 64 word) i = (i = 1)"
  using bit_exp_iff[where ?'a = "64 word", of 1 i] by auto

lemma set_name_first_demo:
  "set_iter name_t (Some 0) 1 hero demo_store = Inr demo_name"
  by (simp add: set_iter_def demo_store_def demo_registry_def demo_name_def name_record_def lookup_def
      offset_def cached_def cache_size_def cache_mask_def bitset_test_def grow_def insert_at_def
      place_def construct_def name_t_def store_elem_def empty_elem_def Let_def set_bit_1_0)

lemma set_position_second_demo:
  "set_iter position_t (Some 0) 0 [1, 0, 0, 0, 2, 0, 0, 0] demo_name = Inr demo_hero"
  by (simp add: set_iter_def demo_hero_def demo_registry_def demo_name_def name_record_def lookup_def
      offset_def cached_def cache_size_def cache_mask_def bitset_test_def grow_def insert_at_def
      place_def construct_def position_t_def store_elem_def Let_def set_bit_0_2 bit_2_word)


lemma unset_bit_0_3: "unset_bit 0 (3 :: 64 word) = 2"
  by (rule bit_word_eqI) (auto simp: bit_unset_bit_iff bit_3_word bit_2_word)

lemma remove_position_demo:
  "remove_component_from_entity (Some 0) 0 demo_hero = Inr demo_name"
  by (simp add: remove_component_from_entity_def demo_hero_def demo_registry_def demo_name_def
      name_record_def lookup_def offset_def cached_def cache_size_def cache_mask_def bitset_test_def
      erase_at_def store_elem_def Let_def unset_bit_0_3 bit_3_word)

lemma held_handle_after_position:
  "held_handle 8 32 (b1 # b2 # b3 # b4 # b5 # b6 # b7 # b8 # replicate 32 (Held h)) = Inr h"
  by (rule held_handle_replicate) (simp_all add: slot_def)

lemma clone_hero_demo:
  "clone_entity (Some 0) demo_hero = Inr (1, demo_clone)"
  by (simp add: clone_entity_def demo_hero_def demo_registry_def demo_clone_def hero_record_def
      lookup_def boxed_ids_def offset_def cached_def cache_size_def cache_mask_def
      read_held_def held_handle_after_position place_def Let_def bit_3_word)

lemma delete_hero_demo:
  "delete_entity_iter (Some 0) demo_hero = Inr (demo_registry\<lparr>next_id := 1, heap := [None]\<rparr>)"
  by (simp add: delete_entity_iter_def demo_hero_def demo_registry_def
      lookup_def boxed_ids_def offset_def cached_def cache_size_def cache_mask_def
      held_handle_after_position destroy_def Let_def bit_3_word)

text \<open>
  Claim C3 (packing invariant).  In every storage reached from the empty storage by
  operations of the typed interface, for every record:
  \<^item> the buffer is as long as the sizes of the present components together;
  \<^item> every present component is registered, its slot starts at the sum of the sizes of the
    present components with a smaller id, which is the offset that \<open>offset\<close> resolves, and
    the slot lies inside the buffer and has the size of the component;
  \<^item> the buffer is the concatenation of the slots of the present components in ascending
    order of the ids: there is no gap and no char outside a slot;
  \<^item> a \<open>set\<close> with the registered type of the component puts the representation of the
    value into the slot of the component and leaves the chars of every other present
    component in the slot of that component, also where the slot has moved; the other
    records are as before;
  \<^item> \<open>remove_component_from_entity\<close> takes the component out and leaves the chars of every
    other present component in the slot of that component;
  \<^item> the record that \<open>clone_entity\<close> adds has the same presence mask, the same chars in the
    slot of every flat component, and in the slot of every non-flat component one whole
    new holder that holds the value of the holder it was cloned from;
  \<^item> \<open>delete_entity\<close> takes the record out of the table and leaves the other records as
    they are.
\<close>

theorem packing_invariant:
  assumes "reachable st" and "(k, e) \<in> set (entities st)"
  shows "length (data e) = bits_size (registered st) (bit (components e)) (length (registered st)) \<and>
         (\<forall>c. bit (components e) c \<longrightarrow>
              c < length (registered st) \<and>
              offset st e c = Inr (bits_size (registered st) (bit (components e)) c) \<and>
              bits_size (registered st) (bit (components e)) c + c_size (registered st ! c)
                \<le> length (data e) \<and>
              length (component_slot (registered st) e c) = c_size (registered st ! c)) \<and>
         data e = concat (map (component_slot (registered st) e) (present_ids (registered st) e)) \<and>
         (\<forall>ty c v st'.
              type_matches (registered st ! c) ty \<longrightarrow> valid_value ty v \<longrightarrow>
              set_iter ty (Some k) c v st = Inr st' \<longrightarrow>
              (\<exists>e'. map_of (entities st') k = Some e' \<and>
                    contents (registered st') e' =
                      (contents (registered st) e)(c \<mapsto> fst (construct ty v (heap st))) \<and>
                    (\<forall>k'. k' \<noteq> k \<longrightarrow> map_of (entities st') k' = map_of (entities st) k'))) \<and>
         (\<forall>c st'.
              remove_component_from_entity (Some k) c st = Inr st' \<longrightarrow>
              (\<exists>e'. map_of (entities st') k = Some e' \<and>
                    contents (registered st') e' = (contents (registered st) e)(c := None) \<and>
                    (\<forall>k'. k' \<noteq> k \<longrightarrow> map_of (entities st') k' = map_of (entities st) k'))) \<and>
         (\<forall>k' st'.
              clone_entity (Some k) st = Inr (k', st') \<longrightarrow>
              (\<exists>e'. map_of (entities st') k' = Some e' \<and> components e' = components e \<and>
                    (\<forall>c. bit (components e) c \<longrightarrow>
                         (if c_flat (registered st ! c)
                          then component_slot (registered st') e' c = component_slot (registered st) e c
                          else \<exists>h. component_slot (registered st') e' c =
                                     replicate (c_size (registered st ! c)) (Held h) \<and>
                                   length (heap st) \<le> h \<and> h < length (heap st') \<and>
                                   (\<forall>v. read_held (heap st)
                                          (bits_size (registered st) (bit (components e)) c)
                                          (c_size (registered st ! c)) (data e) = Inr v \<longrightarrow>
                                        heap st' ! h = Some v))) \<and>
                    (\<forall>k''. k'' \<noteq> k' \<longrightarrow> map_of (entities st') k'' = map_of (entities st) k''))) \<and>
         (\<forall>st'.
              delete_entity_iter (Some k) st = Inr st' \<longrightarrow>
              map_of (entities st') k = None \<and>
              (\<forall>k'. k' \<noteq> k \<longrightarrow> map_of (entities st') k' = map_of (entities st) k'))"
proof -
  have ok: "store_ok st" using assms(1) by (rule reachable_store_ok)
  have p: "packed (registered st) e" using store_okD(3)[OF ok assms(2)] .
  have m: "map_of (entities st) k = Some e" using ok assms(2) by (rule map_of_entity)
  have len: "length (data e) = bits_size (registered st) (bit (components e)) (length (registered st))"
    using p by (simp add: packed_def)
  have slots: "c < length (registered st) \<and>
        offset st e c = Inr (bits_size (registered st) (bit (components e)) c) \<and>
        bits_size (registered st) (bit (components e)) c + c_size (registered st ! c) \<le> length (data e) \<and>
        length (component_slot (registered st) e c) = c_size (registered st ! c)"
    if b: "bit (components e) c" for c
  proof -
    have c: "c < length (registered st)" using p b by (rule packed_registered)
    moreover have "offset st e c = Inr (bits_size (registered st) (bit (components e)) c)"
      using store_okD(1)[OF ok] p c by (rule offset_eq)
    moreover have "bits_size (registered st) (bit (components e)) c + c_size (registered st ! c)
        \<le> length (data e)"
      using bits_size_slot[OF c, of "bit (components e)" "registered st"] b len by simp
    moreover have "length (component_slot (registered st) e c) = c_size (registered st ! c)"
      using p b by (rule length_component_slot)
    ultimately show ?thesis by simp
  qed
  have tiles: "data e = concat (map (component_slot (registered st) e) (present_ids (registered st) e))"
    using p by (rule data_concat)
  note sets = set_iter_contents[OF ok m]
  note removes = remove_component_contents[OF ok m]
  note clones = clone_entity_contents[OF ok m]
  note deletes = delete_entity_iter_others
  show ?thesis
  proof (intro conjI allI impI)
    show "length (data e) = bits_size (registered st) (bit (components e)) (length (registered st))"
      by (rule len)
    show "data e = concat (map (component_slot (registered st) e) (present_ids (registered st) e))"
      by (rule tiles)
    fix ty c v st'
    assume "type_matches (registered st ! c) ty" "valid_value ty v"
      "set_iter ty (Some k) c v st = Inr st'"
    then show "\<exists>e'. map_of (entities st') k = Some e' \<and>
                    contents (registered st') e' =
                      (contents (registered st) e)(c \<mapsto> fst (construct ty v (heap st))) \<and>
                    (\<forall>k'. k' \<noteq> k \<longrightarrow> map_of (entities st') k' = map_of (entities st) k')"
      by (rule sets)
  next
    fix c st'
    assume "remove_component_from_entity (Some k) c st = Inr st'"
    then show "\<exists>e'. map_of (entities st') k = Some e' \<and>
                    contents (registered st') e' = (contents (registered st) e)(c := None) \<and>
                    (\<forall>k'. k' \<noteq> k \<longrightarrow> map_of (entities st') k' = map_of (entities st) k')"
      by (rule removes)
  next
    fix k' st'
    assume "clone_entity (Some k) st = Inr (k', st')"
    then show "\<exists>e'. map_of (entities st') k' = Some e' \<and> components e' = components e \<and>
                    (\<forall>c. bit (components e) c \<longrightarrow>
                         (if c_flat (registered st ! c)
                          then component_slot (registered st') e' c = component_slot (registered st) e c
                          else \<exists>h. component_slot (registered st') e' c =
                                     replicate (c_size (registered st ! c)) (Held h) \<and>
                                   length (heap st) \<le> h \<and> h < length (heap st') \<and>
                                   (\<forall>v. read_held (heap st)
                                          (bits_size (registered st) (bit (components e)) c)
                                          (c_size (registered st ! c)) (data e) = Inr v \<longrightarrow>
                                        heap st' ! h = Some v))) \<and>
                    (\<forall>k''. k'' \<noteq> k' \<longrightarrow> map_of (entities st') k'' = map_of (entities st) k'')"
      by (rule clones)
  next
    fix st'
    assume d: "delete_entity_iter (Some k) st = Inr st'"
    show "map_of (entities st') k = None" using deletes[OF d] by simp
    fix k' assume "k' \<noteq> k"
    then show "map_of (entities st') k' = map_of (entities st) k'" using deletes[OF d] by simp
  qed (use slots in blast)+
qed

lemma reachable_demo_name: "reachable demo_name"
proof -
  have "valid_value name_t hero" by (simp add: valid_value_def name_t_def)
  then have "step demo_store demo_name" using set_name_first_demo by (rule step_set)
  with reachable_demo_store show ?thesis by (rule reachable_step)
qed

lemma demo_name_facts:
  "registered demo_name = registered demo_registry"
  "heap demo_name = [Some hero]"
  "(0, name_record) \<in> set (entities demo_name)"
  by (simp_all add: demo_name_def)

lemma demo_clone_facts:
  "registered demo_clone = registered demo_registry"
  "heap demo_clone = [Some hero, Some hero]"
  "map_of (entities demo_clone) 1 =
     Some \<lparr>components = 3, dirty = 3, data = map Raw [1, 0, 0, 0, 2, 0, 0, 0] @ replicate 32 (Held 1)\<rparr>"
  by (simp_all add: demo_clone_def)

lemma hero_record_slots:
  "present_ids (registered demo_registry) hero_record = [0, 1]"
  "bits_size (registered demo_registry) (bit (components hero_record)) 1 = 8"
  "component_slot (registered demo_registry) hero_record 0 = map Raw [1, 0, 0, 0, 2, 0, 0, 0]"
  "component_slot (registered demo_registry) hero_record 1 = replicate 32 (Held 0)"
  by (simp_all add: present_ids_def component_slot_def slot_def hero_record_def demo_store_facts
      bit_3_word numeral_2_eq_2)

lemma name_record_slots:
  "contents (registered demo_registry) name_record 1 = Some (replicate 32 (Held 0))"
  by (simp add: contents_def component_slot_def slot_def name_record_def demo_store_facts bit_2_word)

theorem packing_invariant_witness:
  "reachable demo_hero \<and> (0, hero_record) \<in> set (entities demo_hero) \<and>
   offset demo_hero hero_record 1 = Inr 8 \<and>
   length (component_slot (registered demo_hero) hero_record 1) = 32 \<and>
   data hero_record =
     component_slot (registered demo_hero) hero_record 0 @
     component_slot (registered demo_hero) hero_record 1 \<and>
   reachable demo_name \<and> (0, name_record) \<in> set (entities demo_name) \<and>
   type_matches (registered demo_name ! 0) position_t \<and>
   valid_value position_t [1, 0, 0, 0, 2, 0, 0, 0] \<and>
   set_iter position_t (Some 0) 0 [1, 0, 0, 0, 2, 0, 0, 0] demo_name = Inr demo_hero \<and>
   contents (registered demo_hero) hero_record =
     (contents (registered demo_name) name_record)(0 \<mapsto> map Raw [1, 0, 0, 0, 2, 0, 0, 0]) \<and>
   contents (registered demo_hero) hero_record 1 = Some (replicate 32 (Held 0)) \<and>
   remove_component_from_entity (Some 0) 0 demo_hero = Inr demo_name \<and>
   contents (registered demo_name) name_record =
     (contents (registered demo_hero) hero_record)(0 := None) \<and>
   clone_entity (Some 0) demo_hero = Inr (1, demo_clone) \<and>
   (\<exists>e' h. map_of (entities demo_clone) 1 = Some e' \<and> components e' = 3 \<and>
           component_slot (registered demo_clone) e' 0 = map Raw [1, 0, 0, 0, 2, 0, 0, 0] \<and>
           component_slot (registered demo_clone) e' 1 = replicate 32 (Held h) \<and>
           1 \<le> h \<and> h < 2 \<and> heap demo_clone ! h = Some hero) \<and>
   delete_entity_iter (Some 0) demo_hero = Inr (demo_registry\<lparr>next_id := 1, heap := [None]\<rparr>) \<and>
   map_of (entities (demo_registry\<lparr>next_id := 1, heap := [None]\<rparr>)) 0 = None"
proof -
  have r1: "reachable demo_hero" by (rule reachable_demo_hero)
  have m1: "(0, hero_record) \<in> set (entities demo_hero)"
    by (simp add: demo_hero_def hero_record_def)
  have r2: "reachable demo_name" by (rule reachable_demo_name)
  have m2: "(0, name_record) \<in> set (entities demo_name)" by (rule demo_name_facts)
  note hero = packing_invariant[OF r1 m1]
  note name = packing_invariant[OF r2 m2]
  have b: "bit (components hero_record) 1" by (simp add: hero_record_def bit_3_word)

  have v: "bits_size (registered demo_hero) (bit (components hero_record)) 1 = 8"
    unfolding demo_hero_facts(1) by (rule hero_record_slots(2))
  have slot1: "offset demo_hero hero_record 1 = Inr 8 \<and>
      length (component_slot (registered demo_hero) hero_record 1) = 32"
    using hero[THEN conjunct2, THEN conjunct1, rule_format, OF b] unfolding v
    by (simp add: demo_hero_facts demo_store_facts)
  have tiles: "data hero_record =
      component_slot (registered demo_hero) hero_record 0 @
      component_slot (registered demo_hero) hero_record 1"
    using hero[THEN conjunct2, THEN conjunct2, THEN conjunct1]
    by (simp add: demo_hero_facts hero_record_slots)

  have tm: "type_matches (registered demo_name ! 0) position_t"
    by (simp add: type_matches_def position_t_def demo_name_facts demo_store_facts)
  have vv: "valid_value position_t [1, 0, 0, 0, 2, 0, 0, 0]"
    by (simp add: valid_value_def position_t_def)
  have hm: "map_of (entities demo_hero) 0 = Some hero_record"
    by (simp add: demo_hero_def hero_record_def)
  have nm: "map_of (entities demo_name) 0 = Some name_record" by (simp add: demo_name_def)
  from name[THEN conjunct2, THEN conjunct2, THEN conjunct2, THEN conjunct1, rule_format,
      OF tm vv set_position_second_demo]
  have set: "contents (registered demo_hero) hero_record =
      (contents (registered demo_name) name_record)(0 \<mapsto> map Raw [1, 0, 0, 0, 2, 0, 0, 0])"
    by (auto simp: hm construct_def position_t_def)
  have kept: "contents (registered demo_hero) hero_record 1 = Some (replicate 32 (Held 0))"
    unfolding set using name_record_slots by (simp add: demo_name_facts)

  from hero[THEN conjunct2, THEN conjunct2, THEN conjunct2, THEN conjunct2, THEN conjunct1,
      rule_format, OF remove_position_demo]
  have remove: "contents (registered demo_name) name_record =
      (contents (registered demo_hero) hero_record)(0 := None)"
    by (auto simp: nm)

  from hero[THEN conjunct2, THEN conjunct2, THEN conjunct2, THEN conjunct2, THEN conjunct2,
      THEN conjunct1, rule_format, OF clone_hero_demo]
  obtain e' where e': "map_of (entities demo_clone) 1 = Some e'" "components e' = components hero_record"
    and sl: "\<And>c. bit (components hero_record) c \<Longrightarrow>
       (if c_flat (registered demo_hero ! c)
        then component_slot (registered demo_clone) e' c = component_slot (registered demo_hero) hero_record c
        else \<exists>h. component_slot (registered demo_clone) e' c =
                   replicate (c_size (registered demo_hero ! c)) (Held h) \<and>
                 length (heap demo_hero) \<le> h \<and> h < length (heap demo_clone) \<and>
                 (\<forall>v. read_held (heap demo_hero)
                        (bits_size (registered demo_hero) (bit (components hero_record)) c)
                        (c_size (registered demo_hero ! c)) (data hero_record) = Inr v \<longrightarrow>
                      heap demo_clone ! h = Some v))"
    by blast
  have b0: "bit (components hero_record) 0" by (simp add: hero_record_def bit_3_word)
  have c0: "component_slot (registered demo_clone) e' 0 = map Raw [1, 0, 0, 0, 2, 0, 0, 0]"
    using sl[OF b0] by (simp add: demo_hero_facts demo_store_facts hero_record_slots)
  have rd: "read_held [Some hero] 8 32 (data hero_record) = Inr hero"
    by (simp add: read_held_def hero_record_def held_handle_after_position)
  from sl[OF b] obtain h where
    h: "component_slot (registered demo_clone) e' 1 = replicate 32 (Held h)" "1 \<le> h" "h < 2"
      "heap demo_clone ! h = Some hero"
    using rd by (auto simp: demo_hero_facts demo_store_facts hero_record_slots demo_clone_facts)
  have clone: "\<exists>e' h. map_of (entities demo_clone) 1 = Some e' \<and> components e' = 3 \<and>
           component_slot (registered demo_clone) e' 0 = map Raw [1, 0, 0, 0, 2, 0, 0, 0] \<and>
           component_slot (registered demo_clone) e' 1 = replicate 32 (Held h) \<and>
           1 \<le> h \<and> h < 2 \<and> heap demo_clone ! h = Some hero"
    using e' c0 h by (intro exI[of _ e'] exI[of _ h]) (simp add: hero_record_def)

  from hero[THEN conjunct2, THEN conjunct2, THEN conjunct2, THEN conjunct2, THEN conjunct2,
      THEN conjunct2, rule_format, OF delete_hero_demo]
  have delete: "map_of (entities (demo_registry\<lparr>next_id := 1, heap := [None]\<rparr>)) 0 = None"
    by simp

  show ?thesis
    using r1 m1 slot1 tiles r2 m2 tm vv set_position_second_demo set kept
      remove_position_demo remove clone_hero_demo clone delete_hero_demo delete
    by (intro conjI) simp_all
qed

section \<open>Dirty bits of present components\<close>

lemma sub_mask_iff: "(d AND m = d) \<longleftrightarrow> (\<forall>i. bit d i \<longrightarrow> bit m i)" for d m :: "64 word"
proof
  assume eq: "d AND m = d"
  show "\<forall>i. bit d i \<longrightarrow> bit m i"
  proof (intro allI impI)
    fix i assume "bit d i"
    then have "bit (d AND m) i" using eq by simp
    then show "bit m i" by (simp add: bit_and_iff)
  qed
next
  assume "\<forall>i. bit d i \<longrightarrow> bit m i"
  then show "d AND m = d" by (intro bit_eqI) (auto simp: bit_and_iff)
qed

lemma dirty_subI:
  "(\<And>k e i. (k, e) \<in> set (entities st) \<Longrightarrow> bit (dirty e) i \<Longrightarrow> bit (components e) i) \<Longrightarrow>
   dirty_sub st"
  by (auto simp: dirty_sub_def list_all_iff sub_mask_iff)

lemma dirty_subD:
  "dirty_sub st \<Longrightarrow> (k, e) \<in> set (entities st) \<Longrightarrow> bit (dirty e) i \<Longrightarrow> bit (components e) i"
  by (auto simp: dirty_sub_def list_all_iff sub_mask_iff)

lemma dirty_sub_store_elem:
  assumes "dirty_sub st" and "\<And>i. bit (dirty e) i \<Longrightarrow> bit (components e) i"
  shows "dirty_sub (store_elem k e st)"
proof (rule dirty_subI)
  fix k' e' i
  assume "(k', e') \<in> set (entities (store_elem k e st))" "bit (dirty e') i"
  then show "bit (components e') i"
    using assms dirty_subD[OF assms(1)] by (auto dest!: set_store_elem)
qed

lemma dirty_sub_cong: "entities st' = entities st \<Longrightarrow> dirty_sub st' = dirty_sub st"
  by (simp add: dirty_sub_def)

lemma dirty_sub_heap [simp]: "dirty_sub (st\<lparr>heap := hp\<rparr>) = dirty_sub st"
  by (simp add: dirty_sub_def)

lemma dirty_sub_new: "dirty_sub new_storage"
  by (simp add: dirty_sub_def new_storage_def)

lemma set_iter_dirty_sub:
  assumes s: "set_iter ty en c v st = Inr st'" and d: "dirty_sub st"
  shows "dirty_sub st'"
proof -
  from s obtain k e off e1 where
    e: "map_of (entities st) k = Some e" and c: "c < 64"
    and e1: "e1 = (if bit (components e) c then e else grow (registered st ! c) c off e)"
    and st': "st' = store_elem k
        (e1\<lparr>data := place off (fst (construct ty v (heap st))) (data e1),
            dirty := set_bit c (dirty e1)\<rparr>)
        (st\<lparr>heap := snd (construct ty v (heap st))\<rparr>)"
    by (rule set_iter_Inr)
  have "(k, e) \<in> set (entities st)" using e by (rule map_of_SomeD)
  with d have "bit (dirty e) i \<Longrightarrow> bit (components e) i" for i by (rule dirty_subD)
  then have "bit (set_bit c (dirty e1)) i \<Longrightarrow> bit (components e1) i" for i
    using c by (auto simp: e1 bit_set_bit_word)
  then show ?thesis unfolding st' using d by (intro dirty_sub_store_elem) simp_all
qed

lemma touch_dirty_sub:
  assumes t: "touch vr st = Inr st'" and d: "dirty_sub st"
    and l: "lookup st (Some (vr_elem vr)) = Inr (k, e)" and b: "bit (components e) (vr_component vr)"
  shows "dirty_sub st'"
proof -
  from t l have c: "vr_component vr < 64"
      and st': "st' = store_elem k (e\<lparr>dirty := set_bit (vr_component vr) (dirty e)\<rparr>) st"
    by (auto simp: touch_def bitset_set_def split: if_splits)
  have "bit (dirty e) i \<Longrightarrow> bit (components e) i" for i
    using d lookup_mem[OF l] by (rule dirty_subD)
  then have "bit (set_bit (vr_component vr) (dirty e)) i \<Longrightarrow> bit (components e) i" for i
    using b c by (auto simp: bit_set_bit_word)
  then show ?thesis unfolding st' using d by (intro dirty_sub_store_elem) simp_all
qed

lemma lookup_store_elem:
  "lookup st (Some k) = Inr (k, e) \<Longrightarrow> lookup (store_elem k e' st) (Some k) = Inr (k, e')"
  by (auto simp: lookup_def map_of_store_elem split: option.splits)

lemma lookup_heap [simp]: "lookup (st\<lparr>heap := hp\<rparr>) en = lookup st en"
  by (cases en) (simp_all add: lookup_def)

lemma var_assign_dirty_sub:
  assumes a: "var_assign ty vr v st = Inr st'" and d: "dirty_sub st"
    and l: "lookup st (Some (vr_elem vr)) = Inr (k, e)" and b: "bit (components e) (vr_component vr)"
  shows "dirty_sub st'"
proof -
  let ?e = "e\<lparr>data := place (vr_offset vr) (fst (construct ty v (heap st))) (data e)\<rparr>"
  let ?s = "store_elem k ?e (st\<lparr>heap := snd (construct ty v (heap st))\<rparr>)"
  have k: "k = vr_elem vr" using lookup_Inr[OF l] by simp
  from a l have t: "touch vr ?s = Inr st'"
    by (auto simp: var_assign_def split: if_splits prod.splits)
  have "bit (dirty e) i \<Longrightarrow> bit (components e) i" for i
    using d lookup_mem[OF l] by (rule dirty_subD)
  then have ds: "dirty_sub ?s" using d by (intro dirty_sub_store_elem) simp_all
  have "lookup ?s (Some (vr_elem vr)) = Inr (k, ?e)"
    using l unfolding k by (intro lookup_store_elem) simp
  then show ?thesis using t ds b by (intro touch_dirty_sub[of vr ?s st' k ?e]) simp_all
qed

lemma var_compound_dirty_sub:
  assumes a: "var_compound ty vr f st = Inr st'" and d: "dirty_sub st"
    and l: "lookup st (Some (vr_elem vr)) = Inr (k, e)" and b: "bit (components e) (vr_component vr)"
  shows "dirty_sub st'"
proof (cases "is_flat ty")
  case True
  from a l True obtain v where
    t: "touch vr (store_elem k (e\<lparr>data := place (vr_offset vr) (map Raw (f v)) (data e)\<rparr>) st) = Inr st'"
    by (auto simp: var_compound_def split: sum.splits)
  let ?e = "e\<lparr>data := place (vr_offset vr) (map Raw (f v)) (data e)\<rparr>"
  have k: "k = vr_elem vr" using lookup_Inr[OF l] by simp
  have "bit (dirty e) i \<Longrightarrow> bit (components e) i" for i
    using d lookup_mem[OF l] by (rule dirty_subD)
  then have ds: "dirty_sub (store_elem k ?e st)" using d by (intro dirty_sub_store_elem) simp_all
  have "lookup (store_elem k ?e st) (Some (vr_elem vr)) = Inr (k, ?e)"
    using l unfolding k by (intro lookup_store_elem)
  then show ?thesis using t ds b by (intro touch_dirty_sub[of vr _ st' k ?e]) simp_all
next
  case False
  from a l False obtain hp where t: "touch vr (st\<lparr>heap := hp\<rparr>) = Inr st'"
    by (auto simp: var_compound_def split: sum.splits if_splits option.splits)
  show ?thesis using t d l b by (intro touch_dirty_sub[of vr "st\<lparr>heap := hp\<rparr>" st' k e]) simp_all
qed

lemma remove_component_dirty_sub:
  assumes r: "remove_component_from_entity en c st = Inr st'" and d: "dirty_sub st"
  shows "dirty_sub st'"
proof -
  from r obtain k e where l: "lookup st en = Inr (k, e)"
    by (auto simp: remove_component_from_entity_def split: sum.splits)
  have sub: "bit (dirty e) i \<Longrightarrow> bit (components e) i" for i
    using d lookup_mem[OF l] by (rule dirty_subD)
  from r l have "st' = st \<or> (\<exists>off. entities st' = entities (store_elem k
                           (e\<lparr>components := unset_bit c (components e),
                              dirty := unset_bit c (dirty e),
                              data := erase_at off (c_size (registered st ! c)) (data e)\<rparr>) st))"
    by (auto simp: remove_component_from_entity_def bitset_test_def Let_def store_elem_def
          split: if_splits sum.splits)
  then show ?thesis
  proof
    assume "st' = st" then show ?thesis using d by simp
  next
    assume "\<exists>off. entities st' = entities (store_elem k
                           (e\<lparr>components := unset_bit c (components e),
                              dirty := unset_bit c (dirty e),
                              data := erase_at off (c_size (registered st ! c)) (data e)\<rparr>) st)"
    then obtain off where en: "entities st' = entities (store_elem k
                           (e\<lparr>components := unset_bit c (components e),
                              dirty := unset_bit c (dirty e),
                              data := erase_at off (c_size (registered st ! c)) (data e)\<rparr>) st)"
      by blast
    have "dirty_sub (store_elem k
                           (e\<lparr>components := unset_bit c (components e),
                              dirty := unset_bit c (dirty e),
                              data := erase_at off (c_size (registered st ! c)) (data e)\<rparr>) st)"
      using d sub by (intro dirty_sub_store_elem) (auto simp: bit_unset_bit_word)
    then show ?thesis using dirty_sub_cong[OF en] by simp
  qed
qed

lemma step_dirty_sub: "step st st' \<Longrightarrow> dirty_sub st \<Longrightarrow> dirty_sub st'"
proof (induction rule: step.induct)
  case (step_register ty nm st c st')
  then show ?case using register_component_fields(2)[OF step_register(1)] by (simp add: dirty_sub_def)
next
  case (step_new_entity st k st')
  then show ?case
    by (auto simp: new_entity_def Let_def dirty_sub_def empty_elem_def)
next
  case (step_set ty v en c st st')
  then show ?case using set_iter_dirty_sub by blast
next
  case (step_remove en c st st')
  then show ?case by (rule remove_component_dirty_sub)
next
  case (step_clone f st k st')
  from step_clone(1) obtain k0 e d hp where l: "lookup st f = Inr (k0, e)"
    and st': "st' = (if map_of (entities st) (next_id st) = None
                         then st\<lparr>entities := entities st @ [(next_id st, e\<lparr>data := d\<rparr>)]\<rparr>
                         else store_elem (next_id st) (e\<lparr>data := d\<rparr>) st)
                        \<lparr>next_id := next_id st + 1, heap := hp\<rparr>"
    by (auto simp: clone_entity_def Let_def split: sum.splits)
  have sub: "bit (dirty e) i \<Longrightarrow> bit (components e) i" for i
    using step_clone(2) lookup_mem[OF l] by (rule dirty_subD)
  then have e: "dirty e AND components e = dirty e" by (simp add: sub_mask_iff)
  have "dirty_sub (store_elem (next_id st) (e\<lparr>data := d\<rparr>) st)"
    using step_clone(2) sub by (intro dirty_sub_store_elem) simp_all
  then show ?case using step_clone(2) e
    by (auto simp: st' dirty_sub_def)
next
  case (step_delete f st st')
  from step_delete(1) obtain k where "entities st' = filter (\<lambda>(k', e'). k' \<noteq> k) (entities st)"
    by (rule delete_entity_iter_fields)
  then show ?case using step_delete(2) by (auto simp: dirty_sub_def list_all_iff)
next
  case (step_dirty_clear en st b st')
  from step_dirty_clear(1) obtain k e where "st' = store_elem k (e\<lparr>dirty := 0\<rparr>) st"
    by (auto simp: check_dirty_and_clear_def split: sum.splits)
  then show ?case using step_dirty_clear(2) by (auto intro: dirty_sub_store_elem)
next
  case (step_flag_clear en c st b st')
  from step_flag_clear(1) obtain k e where l: "lookup st en = Inr (k, e)"
      and st': "st' = store_elem k (e\<lparr>dirty := unset_bit c (dirty e)\<rparr>) st"
    by (auto simp: check_dirty_flag_and_clear_def split: sum.splits)
  have "bit (dirty e) i \<Longrightarrow> bit (components e) i" for i
    using step_flag_clear(2) lookup_mem[OF l] by (rule dirty_subD)
  then show ?case unfolding st' using step_flag_clear(2)
    by (intro dirty_sub_store_elem) (auto simp: bit_unset_bit_word)
next
  case (step_assign st vr k e ty v st')
  then show ?case using var_assign_dirty_sub by blast
next
  case (step_compound st vr k e f ty st')
  then show ?case using var_compound_dirty_sub by blast
qed

lemma reachable_dirty_sub: "reachable st \<Longrightarrow> dirty_sub st"
  by (induction rule: reachable.induct) (auto intro: dirty_sub_new step_dirty_sub)

section \<open>Raw data and dirty flags\<close>

lemma store_elem_mem:
  "(k, e) \<in> set (entities st) \<Longrightarrow> (k, e') \<in> set (entities (store_elem k e' st))"
  by (force simp: store_elem_def)

lemma set_raw_data_dirty_sub:
  assumes d: "dirty_sub st" and l: "lookup st en = Inr (k, e)"
  shows "\<exists>st'. set_raw_data en m x st = Inr st' \<and> (dirty_sub st' \<longleftrightarrow> dirty e AND m = dirty e)"
proof -
  let ?e = "e\<lparr>components := m, data := x\<rparr>"
  have s: "set_raw_data en m x st = Inr (store_elem k ?e st)"
    using l by (simp add: set_raw_data_def)
  have "dirty_sub (store_elem k ?e st)" if "dirty e AND m = dirty e"
    using d that by (intro dirty_sub_store_elem) (simp_all add: sub_mask_iff)
  moreover have "dirty e AND m = dirty e" if "dirty_sub (store_elem k ?e st)"
  proof -
    have "(k, ?e) \<in> set (entities (store_elem k ?e st))"
      using lookup_mem[OF l] by (rule store_elem_mem)
    then show ?thesis using that by (auto simp: dirty_sub_def list_all_iff)
  qed
  ultimately show ?thesis using s by blast
qed

text \<open>
  Claim C6 as amended.  The dirty mask of every record is a subset of its presence mask
  in every storage reached through the typed interface, and every operation of the typed
  interface keeps this.  \<open>set_raw_data\<close> replaces the presence mask and the buffer and leaves
  the dirty mask as it is: after it the invariant holds exactly if the new presence mask
  contains the dirty mask of the record.
\<close>

theorem dirty_subset_of_presence:
  "(reachable st \<longrightarrow> dirty_sub st) \<and>
   (dirty_sub st \<and> step st st' \<longrightarrow> dirty_sub st') \<and>
   (dirty_sub st \<and> lookup st en = Inr (k, e) \<longrightarrow>
      (\<exists>st''. set_raw_data en m x st = Inr st'' \<and>
             (dirty_sub st'' \<longleftrightarrow> dirty e AND m = dirty e)))"
  using reachable_dirty_sub step_dirty_sub set_raw_data_dirty_sub by blast

lemma lookup_demo_position:
  "lookup demo_position (Some 0) =
     Inr (0, \<lparr>components = 1, dirty = 1, data = map Raw [1, 0, 0, 0, 2, 0, 0, 0]\<rparr>)"
  by (simp add: lookup_def demo_position_def)

theorem dirty_subset_of_presence_witness:
  "reachable demo_position \<and> dirty_sub demo_position \<and> step demo_position demo_hero \<and>
   dirty_sub demo_hero \<and>
   lookup demo_position (Some 0) =
     Inr (0, \<lparr>components = 1, dirty = 1, data = map Raw [1, 0, 0, 0, 2, 0, 0, 0]\<rparr>) \<and>
   (\<exists>st''. set_raw_data (Some 0) 1 [] demo_position = Inr st'' \<and> dirty_sub st'')"
proof -
  let ?e = "\<lparr>components = 1, dirty = 1, data = map Raw [1, 0, 0, 0, 2, 0, 0, 0]\<rparr>"
  note t = dirty_subset_of_presence[of demo_position demo_hero "Some 0" 0 ?e 1 "[]"]
  have r: "reachable demo_position" by (rule reachable_demo_position)
  have d: "dirty_sub demo_position" using t r by blast
  have s: "step demo_position demo_hero" by (rule step_demo_hero)
  have d': "dirty_sub demo_hero" using t d s by blast
  have l: "lookup demo_position (Some 0) = Inr (0, ?e)" by (rule lookup_demo_position)
  have "dirty ?e AND 1 = dirty ?e" by simp
  then have "\<exists>st''. set_raw_data (Some 0) 1 [] demo_position = Inr st'' \<and> dirty_sub st''"
    using t d l by blast
  then show ?thesis using r d s d' l by blast
qed

text \<open>
  Claim C6 as stated fails for \<open>set_raw_data\<close>: installing the empty presence mask in a
  record whose dirty bits are set leaves dirty bits of absent components.
\<close>

theorem set_raw_data_breaks_dirty_subset:
  "dirty_sub demo_hero \<and>
   (case set_raw_data (Some 0) 0 [] demo_hero of
      Inl err \<Rightarrow> False
    | Inr st' \<Rightarrow> \<not> dirty_sub st')"
  by (simp add: dirty_sub_def demo_hero_def set_raw_data_def lookup_def store_elem_def)



lemma check_dirty_flag_eq:
  "map_of (entities st) k = Some e \<Longrightarrow> c < 64 \<Longrightarrow>
   check_dirty_flag (Some k) c st = Inr (bit (dirty e) c)"
  by (simp add: check_dirty_flag_def lookup_Some bitset_test_def)


lemma check_dirty_flag_heap [simp]:
  "check_dirty_flag en c (st\<lparr>heap := hp\<rparr>) = check_dirty_flag en c st"
  by (simp add: check_dirty_flag_def)









section \<open>Re-assignment through a variable reference\<close>

lemma var_assign_keeps_heap:
  assumes "var_assign ty vr v st = Inr st'" and "h < length (heap st)"
  shows "heap st' ! h = heap st ! h"
proof -
  from assms(1) obtain s where t: "touch vr s = Inr st'"
      and s: "heap s = snd (construct ty v (heap st))"
    by (auto simp: var_assign_def split: sum.splits if_splits prod.splits)
  from t have "heap st' = heap s" by (auto simp: touch_def split: sum.splits)
  then show ?thesis using s assms(2) by (simp add: construct_def nth_append)
qed

text \<open>
  Claim C5, the re-assignment of a non-flat slot.  \<open>operator=\<close> constructs the new holder
  over the old one and never calls a destructor: in the example storage the value held
  for \<open>name\<close> before the assignment is still alive afterwards, and no slot refers to it.
\<close>

theorem reassignment_leaks_held_value:
  "case var_assign name_t \<lparr>vr_offset = 8, vr_elem = 0, vr_component = 1\<rparr> [98] demo_hero of
     Inl err \<Rightarrow> False
   | Inr st' \<Rightarrow>
       heap st' = [Some hero, Some [98]] \<and>
       map (\<lambda>(k, e). data e) (entities st') =
         [map Raw [1, 0, 0, 0, 2, 0, 0, 0] @ replicate 32 (Held 1)]"
  by (simp add: var_assign_def touch_def lookup_def demo_hero_def demo_registry_def name_t_def
      construct_def place_def store_elem_def bitset_set_def)

section \<open>Deleting an entity that owns held values\<close>

lemma bit_exp_word: "c < 64 \<Longrightarrow> bit (2 ^ c :: 64 word) i = (i = c)"
  by (auto simp: bit_exp_iff)

lemma selected_iff:
  "c < 64 \<Longrightarrow> (m AND set_bit c 0 = set_bit c 0) = bit (m :: 64 word) c"
  using sub_mask_iff[of "2 ^ c" m]
  by (simp add: and.commute bit_exp_word)

lemma begin_iter_simps [simp]:
  "begin_iter (st\<lparr>entities := []\<rparr>) = None"
  "begin_iter (st\<lparr>entities := (k, e) # rest\<rparr>) = Some k"
  by (simp_all add: begin_iter_def)

lemma map_of_middle:
  "distinct (map fst (pre @ (k, e) # post)) \<Longrightarrow> map_of (pre @ (k, e) # post) k = Some e"
  by (induction pre) auto

lemma next_iter_middle:
  assumes "distinct (map fst (entities st))" "entities st = pre @ (k, e) # post"
  shows "next_iter st k = begin_iter (st\<lparr>entities := post\<rparr>)"
proof -
  have "k \<notin> fst ` set pre" using assms by auto
  then have "\<And>x. x \<in> set pre \<Longrightarrow> (case x of (k', e) \<Rightarrow> k' \<noteq> k)"
    by force
  then have "dropWhile (\<lambda>(k', e). k' \<noteq> k) (pre @ (k, e) # post) = (k, e) # post"
    by simp
  then show ?thesis
    using assms(2) by (cases post) (auto simp: next_iter_def begin_iter_def)
qed

lemma filter_middle:
  assumes "distinct (map fst (pre @ (k, e) # post))"
  shows "filter (\<lambda>(k', e'). k' \<noteq> k) (pre @ (k, e) # post) = pre @ post"
proof -
  have "k \<notin> fst ` set pre" "k \<notin> fst ` set post" using assms by auto
  then have "filter (\<lambda>(k', e'). k' \<noteq> k) pre = pre" "filter (\<lambda>(k', e'). k' \<noteq> k) post = post"
    by (force intro!: filter_True)+
  then show ?thesis by simp
qed

text \<open>Destroying the held values of a record\<close>

lemma slot_handle_Some:
  assumes "slot_handle st e c = Some h"
  obtains off where "offset st e c = Inr off"
    "held_handle off (c_size (registered st ! c)) (data e) = Inr h"
  using assms by (auto simp: slot_handle_def split: sum.splits)

lemma destroy_all_ok:
  assumes "map (slot_handle st e) cs = map Some hs" "distinct hs"
    "\<And>h. h \<in> set hs \<Longrightarrow> h < length hp \<and> hp ! h \<noteq> None"
  shows "\<exists>hp'. destroy_all st e cs hp = Inr hp' \<and> length hp' = length hp \<and>
               (\<forall>h. h \<notin> set hs \<longrightarrow> hp' ! h = hp ! h)"
  using assms
proof (induction cs arbitrary: hs hp)
  case Nil
  then show ?case by simp
next
  case (Cons c cs)
  from Cons.prems(1) obtain h hs' where hs: "hs = h # hs'"
    and sh: "slot_handle st e c = Some h" and rest: "map (slot_handle st e) cs = map Some hs'"
    by (cases hs) auto
  from sh obtain off where o: "offset st e c = Inr off"
    and hh: "held_handle off (c_size (registered st ! c)) (data e) = Inr h"
    by (rule slot_handle_Some)
  have d: "destroy h hp = Inr (hp[h := None])"
    using Cons.prems(3)[of h] hs by (simp add: destroy_def)
  have "\<exists>hp'. destroy_all st e cs (hp[h := None]) = Inr hp' \<and>
          length hp' = length (hp[h := None]) \<and>
          (\<forall>x. x \<notin> set hs' \<longrightarrow> hp' ! x = hp[h := None] ! x)"
  proof (rule Cons.IH[OF rest])
    show "distinct hs'" using Cons.prems(2) hs by simp
    fix x assume "x \<in> set hs'"
    then have "x \<noteq> h" using Cons.prems(2) hs by auto
    then show "x < length (hp[h := None]) \<and> hp[h := None] ! x \<noteq> None"
      using Cons.prems(3)[of x] \<open>x \<in> set hs'\<close> hs by (simp add: nth_list_update)
  qed
  then obtain hp' where r: "destroy_all st e cs (hp[h := None]) = Inr hp'"
    and len: "length hp' = length hp"
    and same: "\<And>x. x \<notin> set hs' \<Longrightarrow> hp' ! x = hp[h := None] ! x"
    by force
  have "destroy_all st e (c # cs) hp = Inr hp'" using o hh d r by simp
  moreover have "hp' ! x = hp ! x" if "x \<notin> set hs" for x
  proof -
    have "x \<noteq> h" "x \<notin> set hs'" using that hs by auto
    then show ?thesis using same[of x] by simp
  qed
  ultimately show ?case using len by blast
qed

lemma offset_cong:
  "registered st' = registered st \<Longrightarrow> component_offsets st' = component_offsets st \<Longrightarrow>
   offset st' e c = offset st e c"
  by (simp add: offset_def)

lemma elem_handles_cong:
  assumes "registered st' = registered st" "component_offsets st' = component_offsets st"
  shows "elem_handles st' e = elem_handles st e"
  unfolding elem_handles_def boxed_ids_def slot_handle_def offset_def assms by (rule refl)

lemma live_Some: "live hp x \<Longrightarrow> \<exists>h. x = Some h"
  by (cases x) (simp_all add: live_def)

lemma all_live_Some: "list_all (live hp) xs \<Longrightarrow> \<exists>hs. xs = map Some hs"
proof (induction xs)
  case Nil
  then show ?case by simp
next
  case (Cons x xs)
  then obtain h hs where "x = Some h" "xs = map Some hs"
    by (auto dest: live_Some)
  then have "x # xs = map Some (h # hs)" by simp
  then show ?case by (rule exI[of _ "h # hs"])
qed

lemma delete_entity_iter_ok:
  assumes ok: "store_ok st" and ow: "owned_ok st" and ent: "entities st = pre @ (k, e) # post"
  shows "\<exists>st'. delete_entity_iter (Some k) st = Inr st' \<and> entities st' = pre @ post \<and>
               store_ok st' \<and> owned_ok st'"
proof -
  define A where "A = (\<lambda>xs :: (entity \<times> elem) list. concat (map (\<lambda>(k, e). elem_handles st e) xs))"
  have dk: "distinct (map fst (pre @ (k, e) # post))"
    using store_okD(2)[OF ok] ent by simp
  have l: "lookup st (Some k) = Inr (k, e)"
    using map_of_middle[OF dk] ent by (simp add: lookup_def)
  have ah: "all_handles st = A pre @ elem_handles st e @ A post"
    by (simp add: all_handles_def ent A_def)
  have dist: "distinct (A pre @ elem_handles st e @ A post)"
    and lv: "list_all (live (heap st)) (A pre @ elem_handles st e @ A post)"
    using ow by (simp_all add: owned_ok_def ah)
  from lv have "list_all (live (heap st)) (elem_handles st e)" by simp
  then obtain hs where hs: "elem_handles st e = map Some hs" by (auto dest: all_live_Some)
  have dhs: "distinct hs" using dist hs by (simp add: distinct_map)
  have lhs: "h < length (heap st) \<and> heap st ! h \<noteq> None" if "h \<in> set hs" for h
  proof -
    have "Some h \<in> set (elem_handles st e)" using that hs by simp
    then have "live (heap st) (Some h)" using lv by (auto simp: list_all_iff)
    then show ?thesis by (simp add: live_def)
  qed
  obtain hp' where da: "destroy_all st e (boxed_ids st e) (heap st) = Inr hp'"
    and len: "length hp' = length (heap st)"
    and same: "\<And>h. h \<notin> set hs \<Longrightarrow> hp' ! h = heap st ! h"
    using destroy_all_ok[of st e "boxed_ids st e" hs "heap st"] hs dhs lhs
    by (auto simp: elem_handles_def)
  define st' where "st' = st\<lparr>entities := filter (\<lambda>(k', e'). k' \<noteq> k) (entities st), heap := hp'\<rparr>"
  have del: "delete_entity_iter (Some k) st = Inr st'"
    using l da by (simp add: delete_entity_iter_def st'_def)
  have ent': "entities st' = pre @ post"
    using filter_middle[OF dk] by (simp add: st'_def ent)
  have ok': "store_ok st'" using del ok by (rule delete_entity_iter_store_ok)
  have eh: "elem_handles st' x = elem_handles st x" for x
    by (rule elem_handles_cong) (simp_all add: st'_def)
  have ah': "all_handles st' = A pre @ A post"
    by (simp add: all_handles_def ent' eh A_def)
  have "live (heap st') x" if x: "x \<in> set (A pre @ A post)" for x
  proof -
    have lx: "live (heap st) x" using lv x by (auto simp: list_all_iff)
    then obtain h where h: "x = Some h" by (auto dest: live_Some)
    have "x \<notin> set (elem_handles st e)" using dist x by auto
    then have "h \<notin> set hs" using hs h by auto
    then show ?thesis using lx same[of h] len by (simp add: live_def h st'_def)
  qed
  moreover have "distinct (A pre @ A post)" using dist by auto
  ultimately have "owned_ok st'" by (simp add: owned_ok_def ah' list_all_iff)
  then show ?thesis using del ent' ok' by blast
qed

section \<open>Iteration with deletion\<close>

lemma lookup_middle:
  "distinct (map fst (entities st)) \<Longrightarrow> entities st = pre @ (k, e) # post \<Longrightarrow>
   lookup st (Some k) = Inr (k, e)"
  using map_of_middle[of pre k e post] by (simp add: lookup_def)

lemma for_each_loop_visit_delete:
  assumes "store_ok st" "owned_ok st" "entities st = pre @ rest"
    and sel: "\<And>m. (m AND sel = sel) = bit m c"
  shows "\<exists>st'. for_each_loop c (visit_delete del) sel
                 (begin_iter (st\<lparr>entities := rest\<rparr>)) (log, st) =
               Some (Inr (log @ map fst (filter (\<lambda>(k, e). bit (components e) c) rest), st')) \<and>
             entities st' = pre @ filter (\<lambda>(k, e). \<not> (bit (components e) c \<and> del k)) rest"
  using assms(1-3)
proof (induction rest arbitrary: pre st log)
  case Nil
  then show ?case by (subst for_each_loop.simps) simp
next
  case (Cons x rest)
  obtain k e where x: "x = (k, e)" by (cases x)
  have ent: "entities st = pre @ (k, e) # rest" using Cons.prems(3) x by simp
  have dk: "distinct (map fst (entities st))" using store_okD(2)[OF Cons.prems(1)] .
  have l: "lookup st (Some k) = Inr (k, e)" using dk ent by (rule lookup_middle)
  have n: "next_iter st k = begin_iter (st\<lparr>entities := rest\<rparr>)" using dk ent by (rule next_iter_middle)
  have ent2: "entities st = (pre @ [(k, e)]) @ rest" using ent by simp
  show ?case
  proof (cases "bit (components e) c")
    case False
    from Cons.IH[OF Cons.prems(1,2) ent2, of log] obtain st' where
      r: "for_each_loop c (visit_delete del) sel (begin_iter (st\<lparr>entities := rest\<rparr>)) (log, st) =
            Some (Inr (log @ map fst (filter (\<lambda>(k, e). bit (components e) c) rest), st'))"
      and e': "entities st' = (pre @ [(k, e)]) @ filter (\<lambda>(k, e). \<not> (bit (components e) c \<and> del k)) rest"
      by blast
    have "for_each_loop c (visit_delete del) sel (begin_iter (st\<lparr>entities := x # rest\<rparr>)) (log, st) =
          Some (Inr (log @ map fst (filter (\<lambda>(k, e). bit (components e) c) (x # rest)), st'))"
      using False l n r sel
      by (subst for_each_loop.simps) (simp add: x Let_def)
    then show ?thesis using e' False by (auto simp: x)
  next
    case True
    have p: "packed (registered st) e"
      using store_okD(3)[OF Cons.prems(1), of k e] ent by simp
    have creg: "c < length (registered st)" using p True by (rule packed_registered)
    have o: "offset st e c = Inr (bits_size (registered st) (bit (components e)) c)"
      using store_okD(1)[OF Cons.prems(1)] p creg by (rule offset_eq)
    show ?thesis
    proof (cases "del k")
      case False
      from Cons.IH[OF Cons.prems(1,2) ent2, of "log @ [k]"] obtain st' where
        r: "for_each_loop c (visit_delete del) sel (begin_iter (st\<lparr>entities := rest\<rparr>))
              (log @ [k], st) =
              Some (Inr ((log @ [k]) @ map fst (filter (\<lambda>(k, e). bit (components e) c) rest), st'))"
        and e': "entities st' = (pre @ [(k, e)]) @ filter (\<lambda>(k, e). \<not> (bit (components e) c \<and> del k)) rest"
        by blast
      have "for_each_loop c (visit_delete del) sel (begin_iter (st\<lparr>entities := x # rest\<rparr>)) (log, st) =
            Some (Inr (log @ map fst (filter (\<lambda>(k, e). bit (components e) c) (x # rest)), st'))"
        using True False l n r o sel
        by (subst for_each_loop.simps) (simp add: x Let_def visit_delete_def)
      then show ?thesis using e' True False by (auto simp: x)
    next
      case del: True
      from delete_entity_iter_ok[OF Cons.prems(1,2) ent] obtain st1 where
        d: "delete_entity_iter (Some k) st = Inr st1" and e1: "entities st1 = pre @ rest"
        and ok1: "store_ok st1" and ow1: "owned_ok st1"
        by blast
      from Cons.IH[OF ok1 ow1 e1, of "log @ [k]"] obtain st' where
        r: "for_each_loop c (visit_delete del) sel (begin_iter (st1\<lparr>entities := rest\<rparr>))
              (log @ [k], st1) =
              Some (Inr ((log @ [k]) @ map fst (filter (\<lambda>(k, e). bit (components e) c) rest), st'))"
        and e': "entities st' = pre @ filter (\<lambda>(k, e). \<not> (bit (components e) c \<and> del k)) rest"
        by blast
      have b: "begin_iter (st1\<lparr>entities := rest\<rparr>) = begin_iter (st\<lparr>entities := rest\<rparr>)"
        by (simp add: begin_iter_def)
      have "for_each_loop c (visit_delete del) sel (begin_iter (st\<lparr>entities := x # rest\<rparr>)) (log, st) =
            Some (Inr (log @ map fst (filter (\<lambda>(k, e). bit (components e) c) (x # rest)), st'))"
        using True del l n r o d b sel
        by (subst for_each_loop.simps) (simp add: x Let_def visit_delete_def)
      then show ?thesis using e' True del by (auto simp: x)
    qed
  qed
qed


text \<open>
  Claim C7 (deletion-safe scan).  In a storage that satisfies the packing invariant and
  owns its held values, \<open>for_each\<close> for a component id \<open>c\<close> of the presence mask, with a
  callback that records the entity it is called for and deletes it whenever \<open>del\<close> says
  so, returns; the recorded entities are the entities of the table that hold \<open>c\<close>, in the
  order of the table, each once; the table keeps exactly the entities that were not
  deleted.
\<close>

theorem for_each_deletion_safe:
  assumes "store_ok st" "owned_ok st" "c < 64"
  shows "\<exists>st'. for_each c (visit_delete del) ([], st) =
               Some (Inr (map fst (filter (\<lambda>(k, e). bit (components e) c) (entities st)), st')) \<and>
             entities st' = filter (\<lambda>(k, e). \<not> (bit (components e) c \<and> del k)) (entities st) \<and>
             distinct (map fst (filter (\<lambda>(k, e). bit (components e) c) (entities st)))"
proof -
  have sel: "\<And>m. (m AND set_bit c 0 = set_bit c 0) = bit (m :: 64 word) c"
    using assms(3) by (rule selected_iff)
  have e: "entities st = [] @ entities st" by simp
  from for_each_loop_visit_delete[OF assms(1,2) e sel, of del "[]"] obtain st' where
    r: "for_each_loop c (visit_delete del) (set_bit c 0)
          (begin_iter (st\<lparr>entities := entities st\<rparr>)) ([], st) =
        Some (Inr ([] @ map fst (filter (\<lambda>(k, e). bit (components e) c) (entities st)), st'))"
    and e': "entities st' = [] @ filter (\<lambda>(k, e). \<not> (bit (components e) c \<and> del k)) (entities st)"
    by blast
  have "for_each c (visit_delete del) ([], st) =
        Some (Inr (map fst (filter (\<lambda>(k, e). bit (components e) c) (entities st)), st'))"
    using r assms(3) by (simp add: for_each_def bitset_set_def)
  moreover have "distinct (map fst (filter (\<lambda>(k, e). bit (components e) c) (entities st)))"
    using store_okD(2)[OF assms(1)] by (rule distinct_map_filter)
  ultimately show ?thesis using e' by auto
qed

lemma store_ok_demo_pair: "store_ok demo_pair"
proof (rule store_okI)
  show "cache_ok demo_pair"
    using cache_ok_demo_registry by (simp add: cache_ok_def demo_pair_def)
  show "distinct (map fst (entities demo_pair))" by (simp add: demo_pair_def)
  have r: "registered demo_pair = registered demo_registry" by (simp add: demo_pair_def)
  have p0: "packed (registered demo_registry)
     \<lparr>components = 3, dirty = 3, data = map Raw [1, 0, 0, 0, 2, 0, 0, 0] @ replicate 32 (Held 0)\<rparr>"
    using store_okD(3)[OF store_ok_demo_hero, of 0] by (simp add: demo_hero_def)
  have p1: "packed (registered demo_registry)
     \<lparr>components = 1, dirty = 1, data = map Raw [3, 0, 0, 0, 4, 0, 0, 0]\<rparr>"
    by (simp add: packed_def list_all_iff bit_1_iff demo_store_facts eval_nat_numeral)
  fix k e assume "(k, e) \<in> set (entities demo_pair)"
  then have "e = \<lparr>components = 3, dirty = 3, data = map Raw [1, 0, 0, 0, 2, 0, 0, 0] @ replicate 32 (Held 0)\<rparr>
      \<or> e = \<lparr>components = 1, dirty = 1, data = map Raw [3, 0, 0, 0, 4, 0, 0, 0]\<rparr>"
    by (auto simp: demo_pair_def)
  then show "packed (registered demo_pair) e" using p0 p1 r by auto
qed

lemma owned_ok_demo_pair: "owned_ok demo_pair"
proof -
  have "slot 8 32 (map Raw [1, 0, 0, 0, 2, 0, 0, 0] @ replicate 32 (Held 0)) = replicate 32 (Held 0)"
    by (simp add: slot_def)
  then have hh: "held_handle 8 32 (map Raw [1, 0, 0, 0, 2, 0, 0, 0] @ replicate 32 (Held 0)) = Inr 0"
    by (simp add: held_handle_replicate)
  have "all_handles demo_pair = [Some 0]"
    using hh
    by (simp add: all_handles_def demo_pair_def demo_registry_def elem_handles_def boxed_ids_def
        slot_handle_def offset_def cached_def cache_size_def cache_mask_def upt_rec bit_3_word
        bit_1_iff)
  then show ?thesis by (simp add: owned_ok_def live_def demo_pair_def)
qed

theorem for_each_deletion_safe_witness:
  "store_ok demo_pair \<and> owned_ok demo_pair \<and> (0 :: nat) < 64 \<and>
   (\<exists>st'. for_each 0 (visit_delete (\<lambda>k. k = 0)) ([], demo_pair) = Some (Inr ([0, 1], st')) \<and>
          map fst (entities st') = [1])"
proof -
  have h: "store_ok demo_pair" "owned_ok demo_pair" "(0 :: nat) < 64"
    by (simp_all add: store_ok_demo_pair owned_ok_demo_pair)
  have q: "map fst (filter (\<lambda>(k, e). bit (components e) 0) (entities demo_pair)) = [0, 1]"
    by (simp add: demo_pair_def)
  have r: "map fst (filter (\<lambda>(k, e). \<not> (bit (components e) 0 \<and> k = 0)) (entities demo_pair)) = [1]"
    by (simp add: demo_pair_def)
  from for_each_deletion_safe[OF h, of "\<lambda>k. k = 0"] q r
  have "\<exists>st'. for_each 0 (visit_delete (\<lambda>k. k = 0)) ([], demo_pair) = Some (Inr ([0, 1], st')) \<and>
             map fst (entities st') = [1]"
    by auto
  then show ?thesis using h by blast
qed

section \<open>Further properties of the registry, the raw data and the variable references\<close>

text \<open>
  Registration: \<open>flat_mask_.set\<close> throws for a non-flat type once 64 components are
  registered; a flat type is registered without a check.  The id returned is the number
  of components registered before, as a \<open>uint8_t\<close>.
\<close>

theorem register_component_ids:
  "(\<not> is_flat ty \<and> 64 \<le> length (registered st) \<longrightarrow>
      register_component ty nm st = Inl Out_Of_Range) \<and>
   (is_flat ty \<or> length (registered st) < 64 \<longrightarrow>
      (\<exists>st'. register_component ty nm st = Inr (length (registered st) mod 256, st') \<and>
             registered st' =
               registered st @ [\<lparr>c_name = nm, c_size = size_of ty, c_flat = is_flat ty\<rparr>] \<and>
             entities st' = entities st))"
  by (auto simp: register_component_def bitset_set_def Let_def)

theorem register_component_ids_witness:
  "is_flat byte_t \<and>
   (\<exists>st'. register_component byte_t ''c'' demo_registry = Inr (2, st') \<and>
          registered st' =
            registered demo_registry @ [\<lparr>c_name = ''c'', c_size = 1, c_flat = True\<rparr>] \<and>
          entities st' = entities demo_registry)"
proof -
  have h: "is_flat byte_t" by (simp add: byte_t_def)
  from register_component_ids[of byte_t demo_registry "''c''"] h
  have "\<exists>st'. register_component byte_t ''c'' demo_registry =
          Inr (length (registered demo_registry) mod 256, st') \<and>
        registered st' =
          registered demo_registry @ [\<lparr>c_name = ''c'', c_size = size_of byte_t, c_flat = is_flat byte_t\<rparr>] \<and>
        entities st' = entities demo_registry"
    by blast
  then show ?thesis using h by (simp add: demo_store_facts byte_t_def)
qed

text \<open>
  The raw escape hatch: \<open>get_raw_data\<close> after \<open>set_raw_data\<close> returns the presence mask and
  the buffer that were installed.
\<close>

theorem raw_data_round_trip:
  assumes "lookup st en = Inr (k, e)"
  shows "\<exists>st'. set_raw_data en m d st = Inr st' \<and> get_raw_data en st' = Inr (m, d)"
proof -
  note k = lookup_Inr[OF assms]
  have "lookup st (Some k) = Inr (k, e)" using assms k by simp
  then have "lookup (store_elem k (e\<lparr>components := m, data := d\<rparr>) st) (Some k) =
      Inr (k, e\<lparr>components := m, data := d\<rparr>)"
    by (rule lookup_store_elem)
  then show ?thesis using assms k by (simp add: set_raw_data_def get_raw_data_def)
qed

theorem raw_data_round_trip_witness:
  "lookup demo_position (Some 0) =
     Inr (0, \<lparr>components = 1, dirty = 1, data = map Raw [1, 0, 0, 0, 2, 0, 0, 0]\<rparr>) \<and>
   (\<exists>st'. set_raw_data (Some 0) 0 [] demo_position = Inr st' \<and>
          get_raw_data (Some 0) st' = Inr (0, []))"
  using lookup_demo_position raw_data_round_trip[OF lookup_demo_position, of 0 "[]"]
  by blast

text \<open>
  Variable references: the value assigned through a reference whose slot lies inside the
  buffer is the value read through it afterwards, and the component is marked dirty.
\<close>

theorem var_assign_read_round_trip:
  assumes l: "lookup st (Some (vr_elem vr)) = Inr (k, e)"
    and room: "vr_offset vr + size_of ty \<le> length (data e)"
    and c: "vr_component vr < 64" and v: "valid_value ty v" and pos: "0 < size_of ty"
  shows "\<exists>st'. var_assign ty vr v st = Inr st' \<and> var_read ty vr st' = Inr v \<and>
               check_dirty_flag (Some (vr_elem vr)) (vr_component vr) st' = Inr True"
proof -
  let ?cells = "fst (construct ty v (heap st))"
  let ?hp = "snd (construct ty v (heap st))"
  let ?e1 = "e\<lparr>data := place (vr_offset vr) ?cells (data e)\<rparr>"
  let ?e2 = "?e1\<lparr>dirty := set_bit (vr_component vr) (dirty ?e1)\<rparr>"
  let ?s1 = "store_elem k ?e1 (st\<lparr>heap := ?hp\<rparr>)"
  let ?s2 = "store_elem k ?e2 ?s1"
  have k: "k = vr_elem vr" using lookup_Inr[OF l] by simp
  have l1: "lookup ?s1 (Some (vr_elem vr)) = Inr (k, ?e1)"
    using l unfolding k by (intro lookup_store_elem) simp
  have t: "touch vr ?s1 = Inr ?s2" using l1 c by (simp add: touch_def bitset_set_def)
  have a: "var_assign ty vr v st = Inr ?s2"
    using l room t by (cases "construct ty v (heap st)") (simp add: var_assign_def)
  have l2: "lookup ?s2 (Some (vr_elem vr)) = Inr (k, ?e2)"
    using l1 unfolding k by (rule lookup_store_elem)
  have m2: "map_of (entities ?s2) (vr_elem vr) = Some ?e2"
    using lookup_Inr[OF l2] k by simp
  have r: "var_read ty vr ?s2 = Inr v"
  proof (cases "is_flat ty")
    case True
    then have "length v = size_of ty" using v by (simp add: valid_value_def)
    then show ?thesis
      using True l2 room read_flat_place[of "vr_offset vr" v "data e"]
      by (simp add: var_read_def construct_def)
  next
    case False
    then show ?thesis
      using l2 room pos read_held_place[of "vr_offset vr" "size_of ty" "data e" "heap st" v]
      by (simp add: var_read_def construct_def)
  qed
  have "check_dirty_flag (Some (vr_elem vr)) (vr_component vr) ?s2 = Inr True"
    using check_dirty_flag_eq[OF m2 c] c by (simp add: bit_set_bit_word)
  then show ?thesis using a r by blast
qed

theorem var_assign_read_round_trip_witness:
  "lookup demo_position (Some (vr_elem \<lparr>vr_offset = 0, vr_elem = 0, vr_component = 0\<rparr>)) =
     Inr (0, \<lparr>components = 1, dirty = 1, data = map Raw [1, 0, 0, 0, 2, 0, 0, 0]\<rparr>) \<and>
   valid_value position_t [5, 0, 0, 0, 6, 0, 0, 0] \<and> 0 < size_of position_t \<and>
   (\<exists>st'. var_assign position_t \<lparr>vr_offset = 0, vr_elem = 0, vr_component = 0\<rparr>
            [5, 0, 0, 0, 6, 0, 0, 0] demo_position = Inr st' \<and>
          var_read position_t \<lparr>vr_offset = 0, vr_elem = 0, vr_component = 0\<rparr> st' =
            Inr [5, 0, 0, 0, 6, 0, 0, 0])"
proof -
  let ?vr = "\<lparr>vr_offset = 0, vr_elem = 0, vr_component = 0\<rparr>"
  let ?e = "\<lparr>components = 1, dirty = 1, data = map Raw [1, 0, 0, 0, 2, 0, 0, 0]\<rparr>"
  have h1: "lookup demo_position (Some (vr_elem ?vr)) = Inr (0, ?e)"
    using lookup_demo_position by simp
  have h2: "vr_offset ?vr + size_of position_t \<le> length (data ?e)"
    by (simp add: position_t_def)
  have h3: "vr_component ?vr < 64" by simp
  have h4: "valid_value position_t [5, 0, 0, 0, 6, 0, 0, 0]"
    by (simp add: valid_value_def position_t_def)
  have h5: "0 < size_of position_t" by (simp add: position_t_def)
  from var_assign_read_round_trip[OF h1 h2 h3 h4 h5] show ?thesis
    using h1 h4 h5 by blast
qed

end
